theory Spec2Isabelle
  imports Main "HOL-Library.Multiset" "HOL-Library.AList" "HOL-Library.Char_ord"
    "HOL-Library.List_Lexorder"
begin

unbundle bit_operations_syntax

section \<open>Go standard library functions used by lxd/devices.go\<close>

text \<open>
  Go's \<open>int\<close> is taken to be 64 bits wide (amd64).  Values are HOL integers; the
  range checks of the parsers and the one place where a counter can wrap around
  (the range loop of the pinning parser) are written out.
\<close>

definition MaxInt64 :: int where
  "MaxInt64 = 9223372036854775807"

definition MinInt64 :: int where
  "MinInt64 = - 9223372036854775808"

text \<open>\<open>i++\<close> on a 64-bit signed integer.\<close>

definition int64_inc :: "int \<Rightarrow> int" where
  "int64_inc i = (if i = MaxInt64 then MinInt64 else i + 1)"

text \<open>\<open>fmt.Sprintf("%d", n)\<close>.\<close>

definition digit_char :: "nat \<Rightarrow> char" where
  "digit_char d = ''0123456789'' ! d"

function show_nat :: "nat \<Rightarrow> string" where
  "show_nat n = (if n < 10 then [digit_char n] else show_nat (n div 10) @ [digit_char (n mod 10)])"
  by pat_completeness auto
termination
  by (relation "measure (\<lambda>n. n)") auto

definition show_int :: "int \<Rightarrow> string" where
  "show_int i = (if i < 0 then CHR ''-'' # show_nat (nat (- i)) else show_nat (nat i))"

text \<open>
  \<open>strconv.ParseInt(s, base, bitSize)\<close> for an explicit base of at most ten (no
  prefixes, no underscores): an optional sign, at least one digit, every digit below the base, and
  the value inside the signed range of \<open>bitSize\<close> bits.  \<open>None\<close> is the error.
\<close>

definition digit_of :: "char \<Rightarrow> int option" where
  "digit_of c = (let n = (of_char c :: int) in if 48 \<le> n \<and> n \<le> 57 then Some (n - 48) else None)"

fun digits_val :: "int \<Rightarrow> string \<Rightarrow> int \<Rightarrow> int option" where
  "digits_val b [] acc = Some acc"
| "digits_val b (c # cs) acc =
     (case digit_of c of
        None \<Rightarrow> None
      | Some d \<Rightarrow> if d < b then digits_val b cs (acc * b + d) else None)"

definition ParseInt :: "string \<Rightarrow> int \<Rightarrow> nat \<Rightarrow> int option" where
  "ParseInt s b bitSize =
     (case s of
        [] \<Rightarrow> None
      | c # r \<Rightarrow>
          (let neg = (c = CHR ''-'');
               ds = (if c = CHR ''-'' \<or> c = CHR ''+'' then r else s)
           in if ds = [] then None
              else (case digits_val b ds 0 of
                      None \<Rightarrow> None
                    | Some n \<Rightarrow>
                        if neg then (if n \<le> 2 ^ (bitSize - 1) then Some (- n) else None)
                        else (if n < 2 ^ (bitSize - 1) then Some n else None))))"

definition Atoi :: "string \<Rightarrow> int option" where
  "Atoi s = ParseInt s 10 64"

text \<open>\<open>strings.Split(s, sep)\<close> for a one-byte separator, and \<open>strings.Join\<close>.\<close>

fun Split :: "string \<Rightarrow> char \<Rightarrow> string list" where
  "Split [] sep = [[]]"
| "Split (c # cs) sep =
     (if c = sep then [] # Split cs sep
      else (case Split cs sep of [] \<Rightarrow> [[c]] | h # t \<Rightarrow> (c # h) # t))"

text \<open>
  \<open>strings.SplitN(s, sep, 2)\<close> on a string that contains the separator: the text before
  its first occurrence and the text after it.
\<close>

definition SplitN2 :: "string \<Rightarrow> char \<Rightarrow> string \<times> string" where
  "SplitN2 s sep = (takeWhile (\<lambda>c. c \<noteq> sep) s, tl (dropWhile (\<lambda>c. c \<noteq> sep) s))"

fun Join :: "string list \<Rightarrow> string \<Rightarrow> string" where
  "Join [] sep = []"
| "Join [x] sep = x"
| "Join (x # y # r) sep = x @ sep @ Join (y # r) sep"

section \<open>Device model: validDeviceConfig\<close>

text \<open>\<open>shared.StringInSlice\<close>.\<close>

definition StringInSlice :: "string \<Rightarrow> string list \<Rightarrow> bool" where
  "StringInSlice key lst = (key \<in> set lst)"

definition validDeviceConfig :: "string \<Rightarrow> string \<Rightarrow> string \<Rightarrow> bool" where
  "validDeviceConfig t k v =
     (if k = ''type'' then False
      else if t = ''unix-char'' then
        (if k = ''path'' then True else if k = ''major'' then True
         else if k = ''minor'' then True else if k = ''uid'' then True
         else if k = ''gid'' then True else if k = ''mode'' then True else False)
      else if t = ''unix-block'' then
        (if k = ''path'' then True else if k = ''major'' then True
         else if k = ''minor'' then True else if k = ''uid'' then True
         else if k = ''gid'' then True else if k = ''mode'' then True else False)
      else if t = ''nic'' then
        (if k = ''parent'' then True else if k = ''name'' then True
         else if k = ''hwaddr'' then True else if k = ''mtu'' then True
         else if k = ''nictype'' then
           StringInSlice v [''physical'', ''bridged'', ''p2p'', ''macvlan'']
         else False)
      else if t = ''disk'' then
        (if k = ''path'' then True else if k = ''source'' then True
         else if k = ''readonly'' \<or> k = ''optional'' then True else False)
      else if t = ''none'' then False
      else False)"

text \<open>
  The whitelist as the specification words it (section 3, Device): the attribute names a
  device type accepts.  Types without a list accept nothing.
\<close>

definition spec_whitelist :: "string \<Rightarrow> string list" where
  "spec_whitelist t =
     (if t = ''nic'' then [''parent'', ''name'', ''hwaddr'', ''mtu'', ''nictype'']
      else if t = ''disk'' then [''path'', ''source'', ''readonly'', ''optional'']
      else if t = ''unix-char'' \<or> t = ''unix-block'' then
        [''path'', ''major'', ''minor'', ''uid'', ''gid'', ''mode'']
      else [])"

section \<open>Kernel resource translator: the cgroup device-allow directive\<close>

text \<open>
  A \<open>shared.Device\<close> is a Go \<open>map[string]string\<close>; reading a missing key gives the empty
  string, so the device is a total function from keys to values.
\<close>

type_synonym Device = "string \<Rightarrow> string"








section \<open>CPU balancer: deviceTaskBalance\<close>

text \<open>
  One usage record per online CPU.  In the source the counter is reached through a
  pointer (\<open>count *int\<close>); every record owns its own counter cell and sorting moves the
  records together with their pointers, so the counter is a field of the record here.
  A counter goes up by one for every assignment made in the pass, so it cannot overflow.
\<close>

record deviceTaskCPU =
  cpu_id :: int
  strId :: string
  cpu_count :: int

text \<open>
  What the balancer reads of an instance: whether \<open>containerLXDLoad\<close> succeeded, the
  \<open>limits.cpu\<close> entry of its expanded configuration (\<open>None\<close> when the key is absent) and
  \<open>IsRunning()\<close>.  An instance is identified by its position in the list returned by
  \<open>dbContainersList\<close>: every load produces a fresh object, and the Go maps are keyed by
  that object.
\<close>

record container =
  loads :: bool
  limits_cpu :: "string option"
  IsRunning :: bool

type_synonym fixedContainers = "(int \<times> nat list) list"
type_synonym balancedContainers = "(nat \<times> int) list"
type_synonym pinning = "nat \<rightharpoonup> string list"

text \<open>
  The parts of the Go runtime the pass depends on but does not fix:
  \<open>sort.Sort\<close> on the usage slice (ordered by \<open>Less\<close>, that is by counter; Go does not
  promise stability) and the order in which \<open>range\<close> visits the entries of the two maps
  (unspecified in Go).  The maps are kept as association lists in insertion order and
  \<open>range\<close> applies the given rearrangement.
\<close>

record go_runtime =
  sortUsage :: "deviceTaskCPU list \<Rightarrow> deviceTaskCPU list"
  rangeFixed :: "fixedContainers \<Rightarrow> fixedContainers"
  rangeBalanced :: "balancedContainers \<Rightarrow> balancedContainers"

definition sort_ok :: "(deviceTaskCPU list \<Rightarrow> deviceTaskCPU list) \<Rightarrow> bool" where
  "sort_ok srt = (\<forall>xs. mset (srt xs) = mset xs \<and> sorted (map cpu_count (srt xs)))"

definition runtime_ok :: "go_runtime \<Rightarrow> bool" where
  "runtime_ok rt =
     (sort_ok (sortUsage rt) \<and> (\<forall>xs. mset (rangeFixed rt xs) = mset xs)
      \<and> (\<forall>xs. mset (rangeBalanced rt xs) = mset xs))"

text \<open>
  A concrete runtime: insertion sort (what \<open>sort.Sort\<close> runs on slices of fewer than
  seven elements in every Go release; it is stable) and maps visited in insertion order.
\<close>

definition insertion_runtime :: go_runtime where
  "insertion_runtime =
     \<lparr> sortUsage = sort_key cpu_count, rangeFixed = (\<lambda>xs. xs), rangeBalanced = (\<lambda>xs. xs) \<rparr>"

datatype fault = IndexOutOfRange | NonTermination

definition IntInSlice :: "int \<Rightarrow> int list \<Rightarrow> bool" where
  "IntInSlice key lst = (key \<in> set lst)"

text \<open>
  \<open>fixedContainers[i] = append(fixedContainers[i], c)\<close>, or a new one-element entry.
\<close>

definition fixed_append :: "fixedContainers \<Rightarrow> int \<Rightarrow> nat \<Rightarrow> fixedContainers" where
  "fixed_append fc i c =
     (case map_of fc i of
        Some l \<Rightarrow> AList.update i (l @ [c]) fc
      | None \<Rightarrow> AList.update i [c] fc)"

text \<open>
  \<open>for i := low; i <= high; i++\<close> over 64-bit integers.  When \<open>high\<close> is the largest
  integer the condition never fails and the loop does not return: the result is \<open>None\<close>.
\<close>

partial_function (option) range_loop ::
  "int list \<Rightarrow> nat \<Rightarrow> int \<Rightarrow> int \<Rightarrow> fixedContainers \<Rightarrow> fixedContainers option" where
  "range_loop cpus c i high fc =
     (if i \<le> high
      then range_loop cpus c (int64_inc i) high
             (if \<not> IntInSlice i cpus then fc else fixed_append fc i c)
      else Some fc)"

declare range_loop.simps [code]

definition pin_chunk :: "int list \<Rightarrow> nat \<Rightarrow> fixedContainers \<Rightarrow> string \<Rightarrow> fixedContainers option" where
  "pin_chunk cpus c fc chunk =
     (if CHR ''-'' \<in> set chunk then
        (let fields = SplitN2 chunk (CHR ''-'') in
         case Atoi (fst fields) of
           None \<Rightarrow> Some fc
         | Some low \<Rightarrow>
             (case Atoi (snd fields) of
                None \<Rightarrow> Some fc
              | Some high \<Rightarrow> range_loop cpus c low high fc))
      else
        (case Atoi chunk of
           None \<Rightarrow> Some fc
         | Some nr \<Rightarrow> if \<not> IntInSlice nr cpus then Some fc else Some (fixed_append fc nr c)))"

fun pin_chunks :: "int list \<Rightarrow> nat \<Rightarrow> fixedContainers \<Rightarrow> string list \<Rightarrow> fixedContainers option" where
  "pin_chunks cpus c fc [] = Some fc"
| "pin_chunks cpus c fc (chunk # chunks) =
     (case pin_chunk cpus c fc chunk of
        None \<Rightarrow> None
      | Some fc' \<Rightarrow> pin_chunks cpus c fc' chunks)"

text \<open>The limit string an instance is classified by: the default is the online CPU count.\<close>

definition effective_limit :: "int list \<Rightarrow> container \<Rightarrow> string" where
  "effective_limit cpus ctn =
     (case limits_cpu ctn of
        None \<Rightarrow> show_int (int (length cpus))
      | Some cpu \<Rightarrow> if cpu = [] then show_int (int (length cpus)) else cpu)"

text \<open>The body of the loop over the instances, for instance number \<open>c\<close>.\<close>

definition classify_one ::
  "int list \<Rightarrow> fixedContainers \<times> balancedContainers \<Rightarrow> nat \<times> container
     \<Rightarrow> (fixedContainers \<times> balancedContainers) option" where
  "classify_one cpus st cc =
     (let fc = fst st; bc = snd st; c = fst cc; ctn = snd cc in
      if \<not> loads ctn then Some (fc, bc)
      else
        (let cpu = effective_limit cpus ctn in
         if \<not> IsRunning ctn then Some (fc, bc)
         else
           (case Atoi cpu of
              Some cnt \<Rightarrow> Some (fc, bc @ [(c, min cnt (int (length cpus)))])
            | None \<Rightarrow>
                (case pin_chunks cpus c fc (Split cpu (CHR '','')) of
                   None \<Rightarrow> None
                 | Some fc' \<Rightarrow> Some (fc', bc)))))"

fun classify ::
  "int list \<Rightarrow> fixedContainers \<times> balancedContainers \<Rightarrow> (nat \<times> container) list
     \<Rightarrow> (fixedContainers \<times> balancedContainers) option" where
  "classify cpus st [] = Some st"
| "classify cpus st (cc # ccs) =
     (case classify_one cpus st cc of
        None \<Rightarrow> None
      | Some st' \<Rightarrow> classify cpus st' ccs)"

definition new_usage :: "int list \<Rightarrow> deviceTaskCPU list" where
  "new_usage cpus = map (\<lambda>i. \<lparr> cpu_id = i, strId = show_int i, cpu_count = 0 \<rparr>) cpus"

text \<open>\<open>pinning[ctn] = append(pinning[ctn], id)\<close>, or a new one-element entry.\<close>

definition pin_add :: "pinning \<Rightarrow> nat \<Rightarrow> string \<Rightarrow> pinning" where
  "pin_add p ctn s = (case p ctn of Some l \<Rightarrow> p(ctn \<mapsto> l @ [s]) | None \<Rightarrow> p(ctn \<mapsto> [s]))"

definition incr :: "deviceTaskCPU \<Rightarrow> deviceTaskCPU" where
  "incr cpu = cpu\<lparr> cpu_count := cpu_count cpu + 1 \<rparr>"

text \<open>
  The loop over \<open>fixedContainers\<close>.  \<open>usage[cpu]\<close> indexes the usage slice by position with
  the CPU id; Go panics when the index is outside the slice.
\<close>

fun fixed_ctns ::
  "nat \<Rightarrow> string \<Rightarrow> deviceTaskCPU list \<times> pinning \<Rightarrow> nat list \<Rightarrow> deviceTaskCPU list \<times> pinning" where
  "fixed_ctns k sid st [] = st"
| "fixed_ctns k sid st (ctn # ctns) =
     fixed_ctns k sid ((fst st)[k := incr (fst st ! k)], pin_add (snd st) ctn sid) ctns"

fun fixed_phase ::
  "deviceTaskCPU list \<times> pinning \<Rightarrow> fixedContainers \<Rightarrow> fault + deviceTaskCPU list \<times> pinning" where
  "fixed_phase st [] = Inr st"
| "fixed_phase st ((cpu, ctns) # rest) =
     (if cpu < 0 \<or> int (length (fst st)) \<le> cpu then Inl IndexOutOfRange
      else fixed_phase (fixed_ctns (nat cpu) (strId (fst st ! nat cpu)) st ctns) rest)"

text \<open>
  The inner loop over the sorted usage slice for one load-balanced instance: it stops
  only when the count \<open>cnt\<close> is exactly zero.  (A wrap-around of \<open>count -= 1\<close> would need more
  steps than the slice has elements to come back to zero.)
\<close>

fun alloc :: "nat \<Rightarrow> int \<Rightarrow> deviceTaskCPU list \<Rightarrow> pinning \<Rightarrow> deviceTaskCPU list \<times> pinning" where
  "alloc ctn cnt [] p = ([], p)"
| "alloc ctn cnt (cpu # rest) p =
     (if cnt = 0 then (cpu # rest, p)
      else (let r = alloc ctn (cnt - 1) rest (pin_add p ctn (strId cpu))
            in (incr cpu # fst r, snd r)))"

definition balance_one ::
  "(deviceTaskCPU list \<Rightarrow> deviceTaskCPU list) \<Rightarrow> deviceTaskCPU list \<times> pinning \<Rightarrow> nat \<times> int
     \<Rightarrow> deviceTaskCPU list \<times> pinning" where
  "balance_one srt st b = alloc (fst b) (snd b) (srt (fst st)) (snd st)"

fun balanced_phase ::
  "(deviceTaskCPU list \<Rightarrow> deviceTaskCPU list) \<Rightarrow> deviceTaskCPU list \<times> pinning
     \<Rightarrow> balancedContainers \<Rightarrow> deviceTaskCPU list \<times> pinning" where
  "balanced_phase srt st [] = st"
| "balanced_phase srt st (b # bs) = balanced_phase srt (balance_one srt st b) bs"

text \<open>
  The last loop: \<open>sort.Strings(set)\<close> and \<open>SetCGroup("cpuset.cpus", strings.Join(set, ","))\<close>
  for every entry of \<open>pinning\<close>.  Go compares strings byte by byte, which is the
  lexicographic order of \<open>string\<close>; a failed write is only logged.
\<close>

definition cpuset_value :: "string list \<Rightarrow> string" where
  "cpuset_value ids = Join (sort ids) '',''"

record pass_result =
  final_usage :: "deviceTaskCPU list"
  final_pinning :: pinning
  cpuset_cpus :: "nat \<rightharpoonup> string"

definition deviceTaskBalance :: "go_runtime \<Rightarrow> int list \<Rightarrow> container list \<Rightarrow> fault + pass_result" where
  "deviceTaskBalance rt cpus containers =
     (case classify cpus ([], []) (zip [0..<length containers] containers) of
        None \<Rightarrow> Inl NonTermination
      | Some (fixedCs, balancedCs) \<Rightarrow>
          (case fixed_phase (new_usage cpus, Map.empty) (rangeFixed rt fixedCs) of
             Inl e \<Rightarrow> Inl e
           | Inr st \<Rightarrow>
               (let st' = balanced_phase (sortUsage rt) st (rangeBalanced rt balancedCs)
                in Inr \<lparr> final_usage = fst st', final_pinning = snd st',
                         cpuset_cpus = (\<lambda>ctn. map_option cpuset_value (snd st' ctn)) \<rparr>)))"

text \<open>
  Auxiliary notions for stating the properties of a pass: the number of CPUs the inner
  loop takes from a slice of \<open>n\<close> records for a count \<open>cnt\<close>, appending several ids to an
  instance's entry, the instances that occur in \<open>fixedContainers\<close>, and the usage slice
  still describing exactly the online CPUs.
\<close>

definition takes :: "int \<Rightarrow> nat \<Rightarrow> nat" where
  "takes cnt n = (if cnt < 0 then n else min (nat cnt) n)"

definition pin_adds :: "pinning \<Rightarrow> nat \<Rightarrow> string list \<Rightarrow> pinning" where
  "pin_adds p ctn ids = foldl (\<lambda>q s. pin_add q ctn s) p ids"

definition ctns_of :: "fixedContainers \<Rightarrow> nat set" where
  "ctns_of fc = (\<Union>kv \<in> set fc. set (snd kv))"

definition usage_of :: "int list \<Rightarrow> deviceTaskCPU list \<Rightarrow> bool" where
  "usage_of cpus u =
     (mset (map cpu_id u) = mset cpus \<and> (\<forall>c \<in> set u. strId c = show_int (cpu_id c)))"

definition pins_ok :: "int list \<Rightarrow> pinning \<Rightarrow> bool" where
  "pins_ok cpus p = (\<forall>c l. p c = Some l \<longrightarrow> l \<noteq> [] \<and> set l \<subseteq> show_int ` set cpus)"

text \<open>
  How the loop over the instances classifies an instance: load-balanced with request
  \<open>n\<close> when it loads, runs and its limit parses as the integer \<open>n\<close>; pinned when it
  loads, runs and the limit does not parse.  Other instances are skipped.
\<close>

definition load_balanced :: "int list \<Rightarrow> container \<Rightarrow> int \<Rightarrow> bool" where
  "load_balanced cpus ctn n =
     (loads ctn \<and> IsRunning ctn \<and> Atoi (effective_limit cpus ctn) = Some n)"

definition pinned :: "int list \<Rightarrow> container \<Rightarrow> bool" where
  "pinned cpus ctn = (loads ctn \<and> IsRunning ctn \<and> Atoi (effective_limit cpus ctn) = None)"

definition bal_entry :: "int list \<Rightarrow> nat \<times> container \<Rightarrow> balancedContainers" where
  "bal_entry cpus cc =
     (if loads (snd cc) \<and> IsRunning (snd cc) then
        (case Atoi (effective_limit cpus (snd cc)) of
           Some n \<Rightarrow> [(fst cc, min n (int (length cpus)))]
         | None \<Rightarrow> [])
      else [])"

text \<open>The usage counters of any two CPUs differ by at most one.\<close>

definition even_usage :: "deviceTaskCPU list \<Rightarrow> bool" where
  "even_usage u = (\<forall>a \<in> set u. \<forall>b \<in> set u. cpu_count a \<le> cpu_count b + 1)"

text \<open>The CPU-id strings an instance holds at the end of the pass.\<close>

definition assigned :: "pinning \<Rightarrow> nat \<Rightarrow> string list" where
  "assigned p ctn = (case p ctn of None \<Rightarrow> [] | Some l \<Rightarrow> l)"

text \<open>
  What a pass leaves for instance \<open>ctn\<close>: the ids it holds and the value written to its
  \<open>cpuset.cpus\<close> file; nothing when the pass does not return.  \<open>pass_usage\<close> lists the
  usage slice at the end as pairs of CPU id and counter.
\<close>

definition pass_pinning :: "go_runtime \<Rightarrow> int list \<Rightarrow> container list \<Rightarrow> nat \<Rightarrow> string list" where
  "pass_pinning rt cpus containers ctn =
     (case deviceTaskBalance rt cpus containers of
        Inl e \<Rightarrow> []
      | Inr r \<Rightarrow> assigned (final_pinning r) ctn)"

definition pass_write :: "go_runtime \<Rightarrow> int list \<Rightarrow> container list \<Rightarrow> nat \<Rightarrow> string option" where
  "pass_write rt cpus containers ctn =
     (case deviceTaskBalance rt cpus containers of
        Inl e \<Rightarrow> None
      | Inr r \<Rightarrow> cpuset_cpus r ctn)"

definition pass_usage :: "go_runtime \<Rightarrow> int list \<Rightarrow> container list \<Rightarrow> (int \<times> int) list" where
  "pass_usage rt cpus containers =
     (case deviceTaskBalance rt cpus containers of
        Inl e \<Rightarrow> []
      | Inr r \<Rightarrow> map (\<lambda>c. (cpu_id c, cpu_count c)) (final_usage r))"

text \<open>
  The specification's wording of two details, for comparison with the code: the value
  of the control file as the CPU ids in ascending numeric order, and the choice among
  equally loaded CPUs by ascending CPU id (a sort on the counter that visits the records
  in id order).
\<close>

definition spec_cpuset_value :: "int list \<Rightarrow> string" where
  "spec_cpuset_value ids = Join (map show_int (sort ids)) '',''"

definition spec_sort :: "deviceTaskCPU list \<Rightarrow> deviceTaskCPU list" where
  "spec_sort u = sort_key cpu_count (sort_key cpu_id u)"

definition spec_runtime :: go_runtime where
  "spec_runtime =
     \<lparr> sortUsage = spec_sort, rangeFixed = (\<lambda>xs. xs), rangeBalanced = (\<lambda>xs. xs) \<rparr>"

definition running_ctn :: "string \<Rightarrow> container" where
  "running_ctn cpu = \<lparr> loads = True, limits_cpu = Some cpu, IsRunning = True \<rparr>"

text \<open>A usage slice with a tie: CPUs 1 and 0 have count 1, CPU 2 has count 0.\<close>

definition usage3 :: "deviceTaskCPU list" where
  "usage3 = [\<lparr> cpu_id = 1, strId = ''1'', cpu_count = 1 \<rparr>,
             \<lparr> cpu_id = 2, strId = ''2'', cpu_count = 0 \<rparr>,
             \<lparr> cpu_id = 0, strId = ''0'', cpu_count = 1 \<rparr>]"

section \<open>Live device delta engine: adding a nic to a running instance\<close>

text \<open>
  What happens on the host is recorded as a trace: every \<open>exec.Command(...).Run()\<close> with
  its argument vector, and the call of \<open>AttachInterface\<close> that moves a link into the
  instance.  Whether a step succeeds is decided outside the program, so the outcomes are
  parameters; they may depend on everything that happened before.
\<close>

datatype event = Exec "string list" | AttachInterface string string

record nic_world =
  nextUnusedNic :: string
  volatile_hwaddr :: string
  generateMacAddr :: "string \<Rightarrow> string option"
  txExec_ok :: bool
  tempNic :: "nat \<Rightarrow> string"
  Run :: "event list \<Rightarrow> string list \<Rightarrow> bool"
  attach_ok :: "event list \<Rightarrow> string \<Rightarrow> string \<Rightarrow> bool"
  txUpdateNic_ok :: bool





definition veth_cmd :: "string \<Rightarrow> string \<Rightarrow> string list" where
  "veth_cmd n1 n2 = [''ip'', ''link'', ''add'', n1, ''type'', ''veth'', ''peer'', ''name'', n2]"

definition macvlan_cmd :: "string \<Rightarrow> string \<Rightarrow> string list" where
  "macvlan_cmd n1 parent =
     [''ip'', ''link'', ''add'', n1, ''type'', ''macvlan'', ''link'', parent, ''mode'', ''bridge'']"









text \<open>
  The host-side link a nic of the given type creates: its \<open>ip link add\<close> command and the
  name kept in \<open>dev\<close> (for a veth pair the second end, whose removal removes the pair).
\<close>

definition link_add_cmd :: "nic_world \<Rightarrow> Device \<Rightarrow> string list" where
  "link_add_cmd w d =
     (if d ''nictype'' = ''macvlan'' then macvlan_cmd (tempNic w 0) (d ''parent'')
      else veth_cmd (tempNic w 0) (tempNic w 1))"

definition created_link :: "nic_world \<Rightarrow> Device \<Rightarrow> string" where
  "created_link w d = (if d ''nictype'' = ''macvlan'' then tempNic w 0 else tempNic w 1)"


section \<open>Properties of the device model\<close>

text \<open>
  Claim C8.  \<open>validDeviceConfig\<close> rejects the key \<open>type\<close> for every device type and every
  value, and rejects every key outside the whitelist of the device type; it rejects
  \<open>path\<close> for a nic and accepts it for a disk.
\<close>

theorem validDeviceConfig_whitelist:
  "\<not> validDeviceConfig t ''type'' v
   \<and> (k \<notin> set (spec_whitelist t) \<longrightarrow> \<not> validDeviceConfig t k v)
   \<and> validDeviceConfig ''nic'' ''path'' ''/x'' = False
   \<and> validDeviceConfig ''disk'' ''path'' ''/x'' = True"
  by (simp add: validDeviceConfig_def spec_whitelist_def StringInSlice_def)

theorem validDeviceConfig_whitelist_witness:
  "''mtu'' \<notin> set (spec_whitelist ''disk'') \<and> \<not> validDeviceConfig ''disk'' ''mtu'' ''1500''"
  using validDeviceConfig_whitelist [of "''disk''" "''1500''" "''mtu''"]
  by (simp add: spec_whitelist_def)

text \<open>Inside the whitelist the only further condition is the value of a nic's \<open>nictype\<close>.\<close>

lemma validDeviceConfig_iff:
  "validDeviceConfig t k v =
     (k \<in> set (spec_whitelist t)
      \<and> (t = ''nic'' \<and> k = ''nictype'' \<longrightarrow> v \<in> {''physical'', ''bridged'', ''p2p'', ''macvlan''}))"
  by (simp add: validDeviceConfig_def spec_whitelist_def StringInSlice_def)

section \<open>Properties of the cgroup directive\<close>






section \<open>The CPU balancer: auxiliary facts\<close>

subsection \<open>The allocation loop and the pinning map\<close>

lemma takes_0 [simp]: "takes 0 n = 0"
  by (simp add: takes_def)

lemma takes_Suc: "cnt \<noteq> 0 \<Longrightarrow> takes cnt (Suc n) = Suc (takes (cnt - 1) n)"
  by (auto simp: takes_def min_def nat_diff_distrib)

lemma takes_le: "takes cnt n \<le> n"
  by (simp add: takes_def)

lemma pin_adds_Nil [simp]: "pin_adds p ctn [] = p"
  by (simp add: pin_adds_def)

lemma pin_adds_Cons [simp]: "pin_adds p ctn (s # ss) = pin_adds (pin_add p ctn s) ctn ss"
  by (simp add: pin_adds_def)

lemma alloc_eq:
  "alloc ctn cnt cs p =
     (map incr (take (takes cnt (length cs)) cs) @ drop (takes cnt (length cs)) cs,
      pin_adds p ctn (map strId (take (takes cnt (length cs)) cs)))"
proof (induction cs arbitrary: cnt p)
  case Nil
  show ?case by (simp add: takes_def)
next
  case (Cons cpu rest)
  show ?case
  proof (cases "cnt = 0")
    case True
    then show ?thesis by simp
  next
    case False
    then show ?thesis
      using Cons.IH [of "cnt - 1" "pin_add p ctn (strId cpu)"]
      by (simp add: takes_Suc Let_def)
  qed
qed

lemma assigned_pin_add: "assigned (pin_add p ctn s) c = (if c = ctn then assigned p ctn @ [s] else assigned p c)"
  by (simp add: assigned_def pin_add_def split: option.splits)

lemma pin_add_other: "c \<noteq> ctn \<Longrightarrow> pin_add p ctn s c = p c"
  by (simp add: pin_add_def split: option.splits)

lemma pin_add_same: "pin_add p ctn s ctn = Some (assigned p ctn @ [s])"
  by (simp add: pin_add_def assigned_def split: option.splits)

lemma pin_adds_other: "c \<noteq> ctn \<Longrightarrow> pin_adds p ctn ss c = p c"
  by (induction ss arbitrary: p) (simp_all add: pin_add_other)

lemma assigned_pin_adds: "assigned (pin_adds p ctn ss) ctn = assigned p ctn @ ss"
  by (induction ss arbitrary: p) (simp_all add: assigned_pin_add)

lemma pin_adds_same: "ss \<noteq> [] \<Longrightarrow> pin_adds p ctn ss ctn = Some (assigned p ctn @ ss)"
proof (induction ss arbitrary: p)
  case Nil
  then show ?case by simp
next
  case (Cons s ss)
  show ?case
  proof (cases "ss = []")
    case True
    then show ?thesis by (simp add: pin_add_same)
  next
    case False
    from Cons.IH [OF False, of "pin_add p ctn s"] show ?thesis
      by (simp add: assigned_pin_add)
  qed
qed

lemma incr_fields [simp]:
  "cpu_id (incr c) = cpu_id c" "strId (incr c) = strId c" "cpu_count (incr c) = cpu_count c + 1"
  by (simp_all add: incr_def)

lemma usage_of_new: "usage_of cpus (new_usage cpus)"
  by (simp add: usage_of_def new_usage_def comp_def)

lemma usage_of_perm: "mset u' = mset u \<Longrightarrow> usage_of cpus u \<Longrightarrow> usage_of cpus u'"
  unfolding usage_of_def
  by (metis mset_map set_mset_mset)

lemma usage_of_take_incr:
  assumes "usage_of cpus u"
  shows "usage_of cpus (map incr (take k u) @ drop k u)"
proof -
  have "map cpu_id (map incr (take k u) @ drop k u) = map cpu_id (take k u) @ map cpu_id (drop k u)"
    by (simp add: comp_def)
  also have "\<dots> = map cpu_id (take k u @ drop k u)"
    by (simp only: map_append)
  finally have ids: "map cpu_id (map incr (take k u) @ drop k u) = map cpu_id u"
    by (simp only: append_take_drop_id)
  have strs: "\<forall>c \<in> set (map incr (take k u) @ drop k u). strId c = show_int (cpu_id c)"
  proof
    fix c assume "c \<in> set (map incr (take k u) @ drop k u)"
    then consider c0 where "c0 \<in> set (take k u)" "c = incr c0" | "c \<in> set (drop k u)" by auto
    then show "strId c = show_int (cpu_id c)"
    proof cases
      case 1
      then have "c0 \<in> set u" by (auto dest: in_set_takeD)
      then show ?thesis using assms 1(2) by (simp add: usage_of_def)
    next
      case 2
      then have "c \<in> set u" by (auto dest: in_set_dropD)
      then show ?thesis using assms by (simp add: usage_of_def)
    qed
  qed
  have "mset (map cpu_id u) = mset cpus" using assms by (simp add: usage_of_def)
  then have "mset (map cpu_id (map incr (take k u) @ drop k u)) = mset cpus"
    by (simp only: ids)
  then show ?thesis unfolding usage_of_def using strs by (rule conjI)
qed

lemma usage_of_update:
  assumes "usage_of cpus u" and "k < length u"
  shows "usage_of cpus (u[k := incr (u ! k)])"
proof -
  have "map cpu_id (u[k := incr (u ! k)]) = map cpu_id u"
    using assms(2) by (simp add: map_update list_update_same_conv)
  moreover have "\<forall>c \<in> set (u[k := incr (u ! k)]). strId c = show_int (cpu_id c)"
  proof
    fix c assume "c \<in> set (u[k := incr (u ! k)])"
    then have "c \<in> insert (incr (u ! k)) (set u)" using set_update_subset_insert by fastforce
    then show "strId c = show_int (cpu_id c)"
      using assms by (auto simp: usage_of_def)
  qed
  moreover have "mset (map cpu_id u) = mset cpus" using assms(1) by (simp add: usage_of_def)
  ultimately show ?thesis unfolding usage_of_def by (simp only: simp_thms)
qed

lemma usage_of_length: "usage_of cpus u \<Longrightarrow> length u = length cpus"
  by (metis length_map size_mset usage_of_def)

subsection \<open>Classification of the instances\<close>

lemma ctns_of_Nil [simp]: "ctns_of [] = {}"
  by (simp add: ctns_of_def)

lemma ctns_of_update: "ctns_of (AList.update k v fc) \<subseteq> set v \<union> ctns_of fc"
proof (induction fc)
  case Nil
  show ?case by (simp add: ctns_of_def)
next
  case (Cons kv fc)
  then show ?case by (auto simp: ctns_of_def)
qed

lemma map_of_ctns_of: "map_of fc k = Some l \<Longrightarrow> set l \<subseteq> ctns_of fc"
  by (auto simp: ctns_of_def dest!: map_of_SomeD)

lemma ctns_of_fixed_append: "ctns_of (fixed_append fc i c) \<subseteq> insert c (ctns_of fc)"
proof (cases "map_of fc i")
  case None
  then show ?thesis using ctns_of_update [of i "[c]" fc] by (auto simp: fixed_append_def)
next
  case (Some l)
  then show ?thesis
    using ctns_of_update [of i "l @ [c]" fc] map_of_ctns_of [OF Some]
    by (auto simp: fixed_append_def)
qed

lemma range_loop_ctns:
  assumes "range_loop cpus c i high fc = Some fc'"
  shows "ctns_of fc' \<subseteq> insert c (ctns_of fc)"
proof (rule range_loop.raw_induct
    [where P = "\<lambda>cpus c i high fc fc'. ctns_of fc' \<subseteq> insert c (ctns_of fc)", OF _ assms])
  fix f :: "int list \<Rightarrow> nat \<Rightarrow> int \<Rightarrow> int \<Rightarrow> fixedContainers \<Rightarrow> fixedContainers option"
    and cpus c i high fc fc'
  assume IH: "\<And>cpus c i high fc fc'.
                f cpus c i high fc = Some fc' \<Longrightarrow> ctns_of fc' \<subseteq> insert c (ctns_of fc)"
    and step: "(if i \<le> high
          then f cpus c (int64_inc i) high (if \<not> IntInSlice i cpus then fc else fixed_append fc i c)
          else Some fc) = Some fc'"
  show "ctns_of fc' \<subseteq> insert c (ctns_of fc)"
  proof (cases "i \<le> high")
    case True
    let ?fc = "if \<not> IntInSlice i cpus then fc else fixed_append fc i c"
    from step True have "f cpus c (int64_inc i) high ?fc = Some fc'" by simp
    from IH [OF this] have "ctns_of fc' \<subseteq> insert c (ctns_of ?fc)" .
    moreover have "ctns_of ?fc \<subseteq> insert c (ctns_of fc)"
      using ctns_of_fixed_append [of fc i c] by auto
    ultimately show ?thesis by blast
  next
    case False
    with step show ?thesis by auto
  qed
qed

lemma pin_chunk_ctns:
  "pin_chunk cpus c fc chunk = Some fc' \<Longrightarrow> ctns_of fc' \<subseteq> insert c (ctns_of fc)"
  using ctns_of_fixed_append [of fc _ c]
  by (auto simp: pin_chunk_def Let_def split: if_splits option.splits dest!: range_loop_ctns)

lemma pin_chunks_ctns:
  "pin_chunks cpus c fc chunks = Some fc' \<Longrightarrow> ctns_of fc' \<subseteq> insert c (ctns_of fc)"
proof (induction chunks arbitrary: fc)
  case Nil
  then show ?case by auto
next
  case (Cons chunk chunks)
  from Cons.prems obtain fc1 where
    a: "pin_chunk cpus c fc chunk = Some fc1" and b: "pin_chunks cpus c fc1 chunks = Some fc'"
    by (auto split: option.splits)
  from pin_chunk_ctns [OF a] Cons.IH [OF b] show ?case by blast
qed

lemma classify_one_props:
  assumes "classify_one cpus (fc, bc) cc = Some (fc', bc')"
  shows "bc' = bc @ bal_entry cpus cc"
    and "ctns_of fc' \<subseteq> ctns_of fc \<union> (if pinned cpus (snd cc) then {fst cc} else {})"
  using assms
  by (auto simp: classify_one_def Let_def bal_entry_def pinned_def
      split: if_splits option.splits dest!: pin_chunks_ctns)

lemma classify_props:
  assumes "classify cpus (fc, bc) ccs = Some (fc', bc')"
  shows "bc' = bc @ concat (map (bal_entry cpus) ccs)
       \<and> ctns_of fc' \<subseteq> ctns_of fc \<union> fst ` {cc \<in> set ccs. pinned cpus (snd cc)}"
  using assms
proof (induction ccs arbitrary: fc bc)
  case Nil
  then show ?case by simp
next
  case (Cons cc ccs)
  from Cons.prems obtain fc1 bc1 where
    a: "classify_one cpus (fc, bc) cc = Some (fc1, bc1)" and
    b: "classify cpus (fc1, bc1) ccs = Some (fc', bc')"
    by (auto split: option.splits)
  from classify_one_props [OF a] have
    1: "bc1 = bc @ bal_entry cpus cc" and
    2: "ctns_of fc1 \<subseteq> ctns_of fc \<union> fst ` {x \<in> {cc}. pinned cpus (snd x)}"
    by (auto split: if_splits)
  from Cons.IH [OF b] have
    3: "bc' = bc1 @ concat (map (bal_entry cpus) ccs)" and
    4: "ctns_of fc' \<subseteq> ctns_of fc1 \<union> fst ` {x \<in> set ccs. pinned cpus (snd x)}"
    by simp_all
  have "bc' = bc @ concat (map (bal_entry cpus) (cc # ccs))" using 1 3 by simp
  moreover have "ctns_of fc' \<subseteq> ctns_of fc \<union> fst ` {x \<in> set (cc # ccs). pinned cpus (snd x)}"
  proof
    fix y assume "y \<in> ctns_of fc'"
    with 4 have "y \<in> ctns_of fc1 \<or> y \<in> fst ` {x \<in> set ccs. pinned cpus (snd x)}" by blast
    then show "y \<in> ctns_of fc \<union> fst ` {x \<in> set (cc # ccs). pinned cpus (snd x)}"
    proof
      assume "y \<in> ctns_of fc1"
      with 2 have "y \<in> ctns_of fc \<or> y \<in> fst ` {x \<in> {cc}. pinned cpus (snd x)}" by blast
      then show ?thesis by force
    next
      assume "y \<in> fst ` {x \<in> set ccs. pinned cpus (snd x)}"
      then show ?thesis by force
    qed
  qed
  ultimately show ?case by blast
qed

text \<open>Without pinned instances the classification cannot fail and fixes nothing.\<close>

lemma classify_one_balanced:
  assumes "\<not> pinned cpus (snd cc)"
  shows "classify_one cpus (fc, bc) cc = Some (fc, bc @ bal_entry cpus cc)"
  using assms
  by (auto simp: classify_one_def Let_def bal_entry_def pinned_def split: option.splits)

lemma classify_balanced:
  assumes "\<forall>cc \<in> set ccs. \<not> pinned cpus (snd cc)"
  shows "classify cpus (fc, bc) ccs = Some (fc, bc @ concat (map (bal_entry cpus) ccs))"
  using assms
proof (induction ccs arbitrary: bc)
  case Nil
  then show ?case by simp
next
  case (Cons cc ccs)
  then show ?case by (simp add: classify_one_balanced)
qed

subsection \<open>The fixed phase\<close>

lemma usage_of_strId: "usage_of cpus u \<Longrightarrow> c \<in> set u \<Longrightarrow> strId c \<in> show_int ` set cpus"
proof -
  assume u: "usage_of cpus u" and c: "c \<in> set u"
  then have "cpu_id c \<in> set (map cpu_id u)" by simp
  then have "cpu_id c \<in> set cpus" using u by (metis usage_of_def set_mset_mset)
  moreover have "strId c = show_int (cpu_id c)" using u c by (simp add: usage_of_def)
  ultimately show ?thesis by simp
qed

lemma pins_ok_add:
  assumes "pins_ok cpus p" and "s \<in> show_int ` set cpus"
  shows "pins_ok cpus (pin_add p ctn s)"
  using assms unfolding pins_ok_def pin_add_def
  by (auto split: option.splits if_splits)

lemma pins_ok_adds:
  assumes "pins_ok cpus p" and "set ss \<subseteq> show_int ` set cpus"
  shows "pins_ok cpus (pin_adds p ctn ss)"
  using assms
proof (induction ss arbitrary: p)
  case Nil
  then show ?case by simp
next
  case (Cons s ss)
  then show ?case by (simp add: pins_ok_add)
qed

lemma pins_ok_empty: "pins_ok cpus Map.empty"
  by (simp add: pins_ok_def)

lemma fixed_ctns_props:
  assumes "k < length (fst st)" and "usage_of cpus (fst st)" and "pins_ok cpus (snd st)"
      and "sid \<in> show_int ` set cpus"
  shows "usage_of cpus (fst (fixed_ctns k sid st ctns))
       \<and> pins_ok cpus (snd (fixed_ctns k sid st ctns))
       \<and> (\<forall>c. c \<notin> set ctns \<longrightarrow> snd (fixed_ctns k sid st ctns) c = snd st c)"
  using assms
proof (induction ctns arbitrary: st)
  case Nil
  then show ?case by simp
next
  case (Cons ctn ctns)
  let ?st = "((fst st)[k := incr (fst st ! k)], pin_add (snd st) ctn sid)"
  have 1: "k < length (fst ?st)" using Cons.prems(1) by simp
  have 2: "usage_of cpus (fst ?st)" using Cons.prems(1,2) by (simp add: usage_of_update)
  have 3: "pins_ok cpus (snd ?st)" using Cons.prems(3,4) by (simp add: pins_ok_add)
  from Cons.IH [OF 1 2 3 Cons.prems(4)] show ?case
    by (auto simp: pin_add_other)
qed

lemma ctns_of_Cons: "ctns_of ((k, l) # fl) = set l \<union> ctns_of fl"
  by (simp add: ctns_of_def)

lemma fixed_phase_props:
  assumes "fixed_phase st fl = Inr st'" and "usage_of cpus (fst st)" and "pins_ok cpus (snd st)"
  shows "usage_of cpus (fst st') \<and> pins_ok cpus (snd st')
       \<and> (\<forall>c. c \<notin> ctns_of fl \<longrightarrow> snd st' c = snd st c)"
  using assms
proof (induction fl arbitrary: st)
  case Nil
  then show ?case by simp
next
  case (Cons kv fl)
  obtain cpu ctns where kv: "kv = (cpu, ctns)" by (cases kv)
  from Cons.prems(1) kv have rng: "0 \<le> cpu" "nat cpu < length (fst st)"
    by (auto split: if_splits)
  let ?sid = "strId (fst st ! nat cpu)"
  let ?st = "fixed_ctns (nat cpu) ?sid st ctns"
  from Cons.prems(1) kv rng have run: "fixed_phase ?st fl = Inr st'"
    by (auto split: if_splits)
  have sid: "?sid \<in> show_int ` set cpus"
    using usage_of_strId [OF Cons.prems(2)] rng(2) by simp
  from fixed_ctns_props [OF rng(2) Cons.prems(2,3) sid, of ctns] have
    a: "usage_of cpus (fst ?st)" and b: "pins_ok cpus (snd ?st)" and
    c: "\<forall>c. c \<notin> set ctns \<longrightarrow> snd ?st c = snd st c"
    by simp_all
  from Cons.IH [OF run a b] c show ?case
    by (simp add: kv ctns_of_Cons)
qed

text \<open>An empty \<open>fixedContainers\<close> leaves the state alone.\<close>

lemma fixed_phase_Nil: "fixed_phase st [] = Inr st"
  by simp

subsection \<open>The load-balanced phase\<close>

lemma balance_one_eq:
  "balance_one srt (u, p) (ctn, cnt) =
     (map incr (take (takes cnt (length (srt u))) (srt u)) @ drop (takes cnt (length (srt u))) (srt u),
      pin_adds p ctn (map strId (take (takes cnt (length (srt u))) (srt u))))"
  by (simp add: balance_one_def alloc_eq)

lemma sort_ok_mset: "sort_ok srt \<Longrightarrow> mset (srt u) = mset u"
  by (simp add: sort_ok_def)

lemma sort_ok_sorted: "sort_ok srt \<Longrightarrow> sorted (map cpu_count (srt u))"
  by (simp add: sort_ok_def)

lemma sort_ok_usage: "sort_ok srt \<Longrightarrow> usage_of cpus u \<Longrightarrow> usage_of cpus (srt u)"
  using usage_of_perm sort_ok_mset by blast

lemma balance_one_usage:
  assumes "sort_ok srt" and "usage_of cpus (fst st)"
  shows "usage_of cpus (fst (balance_one srt st b))"
proof -
  obtain u p where st: "st = (u, p)" by (cases st)
  obtain ctn cnt where b: "b = (ctn, cnt)" by (cases b)
  show ?thesis
    using assms sort_ok_usage [of srt cpus u]
    by (simp add: st b balance_one_eq usage_of_take_incr)
qed

lemma balance_one_pins_ok:
  assumes "sort_ok srt" and "usage_of cpus (fst st)" and "pins_ok cpus (snd st)"
  shows "pins_ok cpus (snd (balance_one srt st b))"
proof -
  obtain u p where st: "st = (u, p)" by (cases st)
  obtain ctn cnt where b: "b = (ctn, cnt)" by (cases b)
  have "usage_of cpus (srt u)" using assms st sort_ok_usage by simp
  then have "set (map strId (take (takes cnt (length (srt u))) (srt u))) \<subseteq> show_int ` set cpus"
    using usage_of_strId by (auto dest: in_set_takeD)
  then show ?thesis using assms(3) by (simp add: st b balance_one_eq pins_ok_adds)
qed

lemma balance_one_other:
  "c \<noteq> fst b \<Longrightarrow> snd (balance_one srt st b) c = snd st c"
  by (cases st, cases b) (simp add: balance_one_eq pin_adds_other)

lemma balanced_phase_usage:
  assumes "sort_ok srt" and "usage_of cpus (fst st)"
  shows "usage_of cpus (fst (balanced_phase srt st bs))"
  using assms(2)
proof (induction bs arbitrary: st)
  case Nil
  then show ?case by simp
next
  case (Cons b bs)
  then show ?case using balance_one_usage [OF assms(1)] by simp
qed

lemma balanced_phase_pins_ok:
  assumes "sort_ok srt" and "usage_of cpus (fst st)" and "pins_ok cpus (snd st)"
  shows "pins_ok cpus (snd (balanced_phase srt st bs))"
  using assms(2,3)
proof (induction bs arbitrary: st)
  case Nil
  then show ?case by simp
next
  case (Cons b bs)
  then show ?case
    using balance_one_usage [OF assms(1)] balance_one_pins_ok [OF assms(1)] by simp
qed

lemma balanced_phase_other:
  "c \<notin> fst ` set bs \<Longrightarrow> snd (balanced_phase srt st bs) c = snd st c"
proof (induction bs arbitrary: st)
  case Nil
  then show ?case by simp
next
  case (Cons b bs)
  then show ?case by (simp add: balance_one_other)
qed

text \<open>
  The instance with key \<open>i\<close> receives, at its turn, the first \<open>takes k N\<close> records of the
  freshly sorted usage slice, and nothing before or after.
\<close>

lemma balanced_phase_key:
  assumes srt: "sort_ok srt"
      and "distinct (map fst bs)" and "(i, k) \<in> set bs"
      and "usage_of cpus (fst st)" and "snd st i = None"
  shows "\<exists>us. usage_of cpus us \<and> sorted (map cpu_count us)
            \<and> assigned (snd (balanced_phase srt st bs)) i = map strId (take (takes k (length us)) us)"
  using assms(2-)
proof (induction bs arbitrary: st)
  case Nil
  then show ?case by simp
next
  case (Cons b bs)
  obtain u p where st: "st = (u, p)" by (cases st)
  show ?case
  proof (cases "fst b = i")
    case True
    then have b: "b = (i, k)" using Cons.prems(1,2) by (cases b) (auto simp: rev_image_eqI)
    have notin: "i \<notin> fst ` set bs" using Cons.prems(1) True by auto
    let ?us = "srt u"
    have "snd (balanced_phase srt st (b # bs)) i = snd (balance_one srt st b) i"
      using balanced_phase_other [OF notin] by simp
    also have "\<dots> = pin_adds p i (map strId (take (takes k (length ?us)) ?us)) i"
      by (simp add: st b balance_one_eq)
    finally have "assigned (snd (balanced_phase srt st (b # bs))) i
                    = assigned (pin_adds p i (map strId (take (takes k (length ?us)) ?us))) i"
      by (simp add: assigned_def)
    also have "\<dots> = map strId (take (takes k (length ?us)) ?us)"
    proof -
      have "assigned p i = []" using Cons.prems(4) by (simp add: st assigned_def)
      then show ?thesis by (simp add: assigned_pin_adds)
    qed
    finally have "assigned (snd (balanced_phase srt st (b # bs))) i
                    = map strId (take (takes k (length ?us)) ?us)" .
    moreover have "usage_of cpus ?us" using Cons.prems(3) st sort_ok_usage [OF srt] by simp
    moreover have "sorted (map cpu_count ?us)" using sort_ok_sorted [OF srt] .
    ultimately show ?thesis by blast
  next
    case False
    then have 1: "(i, k) \<in> set bs" using Cons.prems(2) by auto
    have 2: "distinct (map fst bs)" using Cons.prems(1) by simp
    have 3: "usage_of cpus (fst (balance_one srt st b))"
      using balance_one_usage [OF srt Cons.prems(3)] .
    have 4: "snd (balance_one srt st b) i = None"
      using balance_one_other [of i b srt st] False Cons.prems(4) by simp
    from Cons.IH [OF 2 1 3 4] show ?thesis by simp
  qed
qed

subsection \<open>Evenness of the usage counters\<close>

lemma even_usage_perm: "mset u' = mset u \<Longrightarrow> even_usage u' = even_usage u"
  by (metis even_usage_def set_mset_mset)

lemma sorted_take_drop:
  assumes "sorted (map f xs)" and "a \<in> set (take k xs)" and "b \<in> set (drop k xs)"
  shows "f a \<le> f b"
proof -
  have "sorted (map f (take k xs) @ map f (drop k xs))"
    using assms(1) by (metis append_take_drop_id map_append)
  then show ?thesis using assms(2,3) by (auto simp: sorted_append)
qed

lemma even_usage_take_incr:
  assumes "even_usage u" and "sorted (map cpu_count u)"
  shows "even_usage (map incr (take k u) @ drop k u)"
  unfolding even_usage_def
proof (intro ballI)
  fix a b
  assume a: "a \<in> set (map incr (take k u) @ drop k u)"
     and b: "b \<in> set (map incr (take k u) @ drop k u)"
  from a consider a0 where "a0 \<in> set (take k u)" "a = incr a0" | "a \<in> set (drop k u)" by auto
  then show "cpu_count a \<le> cpu_count b + 1"
  proof cases
    case 1
    from b consider b0 where "b0 \<in> set (take k u)" "b = incr b0" | "b \<in> set (drop k u)" by auto
    then show ?thesis
    proof cases
      case 1
      have "cpu_count a0 \<le> cpu_count b0 + 1"
        using \<open>a0 \<in> set (take k u)\<close> 1(1) assms(1)
        by (auto simp: even_usage_def dest!: in_set_takeD)
      then show ?thesis using \<open>a = incr a0\<close> 1(2) by simp
    next
      case 2
      from sorted_take_drop [OF assms(2) \<open>a0 \<in> set (take k u)\<close> 2] \<open>a = incr a0\<close>
      show ?thesis by simp
    qed
  next
    case 2
    from b consider b0 where "b0 \<in> set (take k u)" "b = incr b0" | "b \<in> set (drop k u)" by auto
    then show ?thesis
    proof cases
      case 1
      have "cpu_count a \<le> cpu_count b0 + 1"
        using 2 1(1) assms(1)
        by (auto simp: even_usage_def dest!: in_set_takeD in_set_dropD)
      then show ?thesis using 1(2) by simp
    next
      case 2
      with \<open>a \<in> set (drop k u)\<close> assms(1) show ?thesis
        by (auto simp: even_usage_def dest!: in_set_dropD)
    qed
  qed
qed

lemma balance_one_even:
  assumes "sort_ok srt" and "even_usage (fst st)"
  shows "even_usage (fst (balance_one srt st b))"
proof -
  obtain u p where st: "st = (u, p)" by (cases st)
  obtain ctn cnt where b: "b = (ctn, cnt)" by (cases b)
  have "even_usage (srt u)"
    using assms st even_usage_perm [OF sort_ok_mset [OF assms(1)]] by simp
  from even_usage_take_incr [OF this sort_ok_sorted [OF assms(1)]]
  show ?thesis by (simp add: st b balance_one_eq)
qed

lemma balanced_phase_even:
  assumes "sort_ok srt" and "even_usage (fst st)"
  shows "even_usage (fst (balanced_phase srt st bs))"
  using assms(2)
proof (induction bs arbitrary: st)
  case Nil
  then show ?case by simp
next
  case (Cons b bs)
  then show ?case using balance_one_even [OF assms(1)] by simp
qed

lemma even_usage_new: "even_usage (new_usage cpus)"
  by (auto simp: even_usage_def new_usage_def)

subsection \<open>The pass as a whole\<close>

lemma pass_Inr:
  assumes "deviceTaskBalance rt cpus ctns = Inr r"
  obtains fc bc st where
    "classify cpus ([], []) (zip [0..<length ctns] ctns) = Some (fc, bc)"
    "fixed_phase (new_usage cpus, Map.empty) (rangeFixed rt fc) = Inr st"
    "final_usage r = fst (balanced_phase (sortUsage rt) st (rangeBalanced rt bc))"
    "final_pinning r = snd (balanced_phase (sortUsage rt) st (rangeBalanced rt bc))"
    "cpuset_cpus r = (\<lambda>ctn. map_option cpuset_value (final_pinning r ctn))"
proof -
  from assms obtain fc bc where
    c: "classify cpus ([], []) (zip [0..<length ctns] ctns) = Some (fc, bc)"
    by (auto simp: deviceTaskBalance_def split: option.splits)
  with assms obtain st where
    f: "fixed_phase (new_usage cpus, Map.empty) (rangeFixed rt fc) = Inr st"
    by (auto simp: deviceTaskBalance_def split: sum.splits)
  from assms c f have
    "r = \<lparr> final_usage = fst (balanced_phase (sortUsage rt) st (rangeBalanced rt bc)),
           final_pinning = snd (balanced_phase (sortUsage rt) st (rangeBalanced rt bc)),
           cpuset_cpus = (\<lambda>ctn. map_option cpuset_value
               (snd (balanced_phase (sortUsage rt) st (rangeBalanced rt bc)) ctn)) \<rparr>"
    by (simp add: deviceTaskBalance_def Let_def)
  then have
    "final_usage r = fst (balanced_phase (sortUsage rt) st (rangeBalanced rt bc))"
    "final_pinning r = snd (balanced_phase (sortUsage rt) st (rangeBalanced rt bc))"
    "cpuset_cpus r = (\<lambda>ctn. map_option cpuset_value (final_pinning r ctn))"
    by simp_all
  with c f that show thesis by blast
qed

lemma pass_invariants:
  assumes ok: "runtime_ok rt" and run: "deviceTaskBalance rt cpus ctns = Inr r"
  shows "usage_of cpus (final_usage r)" and "pins_ok cpus (final_pinning r)"
proof -
  from run obtain fc bc st where
    f: "fixed_phase (new_usage cpus, Map.empty) (rangeFixed rt fc) = Inr st" and
    u: "final_usage r = fst (balanced_phase (sortUsage rt) st (rangeBalanced rt bc))" and
    p: "final_pinning r = snd (balanced_phase (sortUsage rt) st (rangeBalanced rt bc))"
    by (rule pass_Inr)
  have srt: "sort_ok (sortUsage rt)" using ok by (simp add: runtime_ok_def)
  have "usage_of cpus (fst (new_usage cpus, Map.empty :: pinning))"
    and "pins_ok cpus (snd (new_usage cpus, Map.empty :: pinning))"
    by (simp_all add: usage_of_new pins_ok_empty)
  from fixed_phase_props [OF f this] have a: "usage_of cpus (fst st)" and b: "pins_ok cpus (snd st)"
    by simp_all
  show "usage_of cpus (final_usage r)"
    using balanced_phase_usage [OF srt a] by (simp add: u)
  show "pins_ok cpus (final_pinning r)"
    using balanced_phase_pins_ok [OF srt a b] by (simp add: p)
qed

lemma bal_entry_cases:
  "bal_entry cpus cc = [] \<or> (\<exists>k. bal_entry cpus cc = [(fst cc, k)])"
  by (simp add: bal_entry_def split: option.splits)

lemma bal_entry_fst: "x \<in> set (bal_entry cpus cc) \<Longrightarrow> fst x = fst cc"
  using bal_entry_cases [of cpus cc] by auto

lemma bal_entry_distinct: "distinct (map fst (bal_entry cpus cc))"
  using bal_entry_cases [of cpus cc] by auto

lemma bal_entry_keys:
  "map fst (bal_entry cpus cc) = [] \<or> map fst (bal_entry cpus cc) = [fst cc]"
  using bal_entry_cases [of cpus cc] by auto

lemma bal_entries_keys:
  "set (map fst (concat (map (bal_entry cpus) ccs))) \<subseteq> set (map fst ccs)"
proof (induction ccs)
  case Nil
  show ?case by simp
next
  case (Cons cc ccs)
  have "set (map fst (bal_entry cpus cc)) \<subseteq> {fst cc}"
    using bal_entry_keys [of cpus cc] by auto
  with Cons.IH show ?case by auto
qed

lemma bal_entries_distinct:
  "distinct (map fst ccs) \<Longrightarrow> distinct (map fst (concat (map (bal_entry cpus) ccs)))"
proof (induction ccs)
  case Nil
  then show ?case by simp
next
  case (Cons cc ccs)
  let ?rest = "map fst (concat (map (bal_entry cpus) ccs))"
  have d: "distinct ?rest" using Cons by simp
  have n: "fst cc \<notin> set ?rest" using Cons.prems bal_entries_keys [of cpus ccs] by auto
  have eq: "map fst (concat (map (bal_entry cpus) (cc # ccs))) = map fst (bal_entry cpus cc) @ ?rest"
    by simp
  from bal_entry_keys [of cpus cc] show ?case
  proof
    assume "map fst (bal_entry cpus cc) = []"
    then show ?thesis using d by (simp only: eq append_Nil)
  next
    assume "map fst (bal_entry cpus cc) = [fst cc]"
    then show ?thesis using d n by (simp only: eq) simp
  qed
qed

lemma bal_entry_load_balanced:
  "load_balanced cpus ctn n \<Longrightarrow> bal_entry cpus (i, ctn) = [(i, min n (int (length cpus)))]"
  by (simp add: bal_entry_def load_balanced_def)

lemma in_zip_upt: "i < length xs \<Longrightarrow> (i, xs ! i) \<in> set (zip [0..<length xs] xs)"
  by (auto simp: in_set_zip intro!: exI [of _ i])

lemma zip_upt_snd: "(i, x) \<in> set (zip [0..<length xs] xs) \<Longrightarrow> x = xs ! i"
  by (auto simp: in_set_zip)

lemma ctns_of_perm: "mset fl' = mset fl \<Longrightarrow> ctns_of fl' = ctns_of fl"
  by (metis ctns_of_def set_mset_mset)

text \<open>
  What a load-balanced instance holds at the end of a pass that returns: the first
  \<open>takes k N\<close> records of a usage slice sorted at its turn, where \<open>k\<close> is its capped
  request.
\<close>

lemma balanced_instance_assigned:
  assumes ok: "runtime_ok rt" and run: "deviceTaskBalance rt cpus ctns = Inr r"
      and i: "i < length ctns" and lb: "load_balanced cpus (ctns ! i) n"
  shows "\<exists>us. usage_of cpus us \<and> sorted (map cpu_count us)
            \<and> assigned (final_pinning r) i
                = map strId (take (takes (min n (int (length cpus))) (length us)) us)"
proof -
  let ?ccs = "zip [0..<length ctns] ctns"
  from run obtain fc bc st where
    c: "classify cpus ([], []) ?ccs = Some (fc, bc)" and
    f: "fixed_phase (new_usage cpus, Map.empty) (rangeFixed rt fc) = Inr st" and
    p: "final_pinning r = snd (balanced_phase (sortUsage rt) st (rangeBalanced rt bc))"
    by (rule pass_Inr)
  have srt: "sort_ok (sortUsage rt)" and pf: "mset (rangeFixed rt fc) = mset fc"
    and pb: "mset (rangeBalanced rt bc) = mset bc"
    using ok by (simp_all add: runtime_ok_def)
  from classify_props [OF c] have
    bc: "bc = concat (map (bal_entry cpus) ?ccs)" and
    fc: "ctns_of fc \<subseteq> fst ` {cc \<in> set ?ccs. pinned cpus (snd cc)}"
    by simp_all
  have "i \<notin> ctns_of fc"
  proof
    assume "i \<in> ctns_of fc"
    with fc obtain x where "(i, x) \<in> set ?ccs" "pinned cpus x" by auto
    then have "pinned cpus (ctns ! i)" using zip_upt_snd by metis
    with lb show False by (simp add: pinned_def load_balanced_def)
  qed
  then have ni: "i \<notin> ctns_of (rangeFixed rt fc)" by (simp add: ctns_of_perm [OF pf])
  have "usage_of cpus (fst (new_usage cpus, Map.empty :: pinning))"
    and "pins_ok cpus (snd (new_usage cpus, Map.empty :: pinning))"
    by (simp_all add: usage_of_new pins_ok_empty)
  from fixed_phase_props [OF f this] ni have
    a: "usage_of cpus (fst st)" and b: "snd st i = None"
    by simp_all
  have "(i, min n (int (length cpus))) \<in> set (bal_entry cpus (i, ctns ! i))"
    by (simp add: bal_entry_load_balanced [OF lb])
  then have "(i, min n (int (length cpus))) \<in> set bc"
    unfolding bc using in_zip_upt [OF i] by auto
  then have mem: "(i, min n (int (length cpus))) \<in> set (rangeBalanced rt bc)"
    using pb by (metis set_mset_mset)
  have "distinct (map fst bc)"
    unfolding bc by (rule bal_entries_distinct) simp
  then have dist: "distinct (map fst (rangeBalanced rt bc))"
    using pb by (metis distinct_map mset_eq_imp_distinct_iff set_mset_mset inj_on_def)
  from balanced_phase_key [OF srt dist mem a b] show ?thesis by (simp add: p)
qed

section \<open>The CPU balancer: the pass as a whole\<close>

lemmas pass_eval =
  deviceTaskBalance_def classify_one_def effective_limit_def running_ctn_def
  pin_chunk_def SplitN2_def IntInSlice_def fixed_append_def new_usage_def
  balance_one_def pin_add_def incr_def insertion_runtime_def spec_runtime_def spec_sort_def
  cpuset_value_def assigned_def pass_pinning_def pass_write_def pass_usage_def
  Atoi_def ParseInt_def digit_of_def show_int_def digit_char_def Let_def
  range_loop.simps int64_inc_def MaxInt64_def MinInt64_def

lemma insertion_runtime_ok: "runtime_ok insertion_runtime"
  by (simp add: runtime_ok_def sort_ok_def insertion_runtime_def)

lemma spec_runtime_ok: "runtime_ok spec_runtime"
  by (simp add: runtime_ok_def sort_ok_def spec_runtime_def spec_sort_def)

text \<open>A pass without pinned instances returns.\<close>

lemma balanced_only_pass:
  assumes ok: "runtime_ok rt" and np: "\<forall>c \<in> set ctns. \<not> pinned cpus c"
  shows "\<exists>r. deviceTaskBalance rt cpus ctns = Inr r
           \<and> final_usage r = fst (balanced_phase (sortUsage rt) (new_usage cpus, Map.empty)
                 (rangeBalanced rt (concat (map (bal_entry cpus) (zip [0..<length ctns] ctns)))))"
proof -
  let ?ccs = "zip [0..<length ctns] ctns"
  have "\<forall>cc \<in> set ?ccs. \<not> pinned cpus (snd cc)"
    using np by (auto dest: set_zip_rightD)
  from classify_balanced [OF this, of "[]" "[]"] have
    c: "classify cpus ([], []) ?ccs = Some ([], concat (map (bal_entry cpus) ?ccs))" by simp
  have "mset (rangeFixed rt []) = mset []" using ok by (simp add: runtime_ok_def)
  then have f: "rangeFixed rt [] = []" by simp
  show ?thesis by (simp add: deviceTaskBalance_def c f Let_def)
qed

lemma usage_ids:
  assumes "usage_of cpus us"
  shows "map strId (take k us) = map show_int (map cpu_id (take k us))"
  using assms by (auto simp: usage_of_def dest: in_set_takeD)

lemma takes_nonneg: "0 \<le> n \<Longrightarrow> int (takes (min n (int N)) N) = min n (int N)"
  by (auto simp: takes_def min_def)

lemma takes_neg: "n < 0 \<Longrightarrow> takes (min n (int N)) N = N"
  by (auto simp: takes_def min_def)

lemma assigned_Some: "assigned p i \<noteq> [] \<Longrightarrow> p i = Some (assigned p i)"
  by (simp add: assigned_def split: option.splits)

lemma sort_mset_eq: "mset xs = mset ys \<Longrightarrow> sort xs = sort (ys :: string list)"
  by (metis properties_for_sort mset_sort sorted_sort)

subsection \<open>The range loop of the pinning parser\<close>

text \<open>
  With the largest 64-bit integer as upper bound the loop never returns; with any
  other upper bound it does.
\<close>

lemma int64_inc_le: "i \<le> MaxInt64 \<Longrightarrow> int64_inc i \<le> MaxInt64"
  by (simp add: int64_inc_def MaxInt64_def MinInt64_def)

lemma range_loop_MaxInt64:
  assumes "i \<le> MaxInt64"
  shows "range_loop cpus c i MaxInt64 fc = None"
proof (rule ccontr)
  assume "range_loop cpus c i MaxInt64 fc \<noteq> None"
  then obtain y where y: "range_loop cpus c i MaxInt64 fc = Some y" by auto
  have "high = MaxInt64 \<longrightarrow> i \<le> MaxInt64 \<longrightarrow> False" if "range_loop cpus c i high fc = Some y"
    for high
    using that
  proof (rule range_loop.raw_induct
      [where P = "\<lambda>cpus c i high fc y. high = MaxInt64 \<longrightarrow> i \<le> MaxInt64 \<longrightarrow> False", rotated])
    fix f :: "int list \<Rightarrow> nat \<Rightarrow> int \<Rightarrow> int \<Rightarrow> fixedContainers \<Rightarrow> fixedContainers option"
      and cpus c i high fc y
    assume IH: "\<And>cpus c i high fc y.
                  f cpus c i high fc = Some y \<Longrightarrow> high = MaxInt64 \<longrightarrow> i \<le> MaxInt64 \<longrightarrow> False"
      and step: "(if i \<le> high
          then f cpus c (int64_inc i) high (if \<not> IntInSlice i cpus then fc else fixed_append fc i c)
          else Some fc) = Some y"
    show "high = MaxInt64 \<longrightarrow> i \<le> MaxInt64 \<longrightarrow> False"
    proof (intro impI)
      assume h: "high = MaxInt64" and i: "i \<le> MaxInt64"
      from step h i have
        "f cpus c (int64_inc i) high (if \<not> IntInSlice i cpus then fc else fixed_append fc i c) = Some y"
        by simp
      from IH [OF this] h int64_inc_le [OF i] show False by simp
    qed
  qed
  from this [OF y] assms show False by simp
qed

lemma range_loop_terminates:
  assumes "high < MaxInt64"
  shows "\<exists>fc'. range_loop cpus c i high fc = Some fc'"
proof (induction "nat (high + 1 - i)" arbitrary: i fc)
  case 0
  then have "\<not> i \<le> high" by simp
  then show ?case by (subst range_loop.simps) simp
next
  case (Suc m)
  then have le: "i \<le> high" by simp
  then have inc: "int64_inc i = i + 1" using assms by (simp add: int64_inc_def)
  have "m = nat (high + 1 - (i + 1))" using Suc(2) by simp
  from Suc(1) [OF this] obtain fc' where
    "range_loop cpus c (i + 1) high (if \<not> IntInSlice i cpus then fc else fixed_append fc i c) = Some fc'"
    by blast
  then show ?case using le inc by (subst range_loop.simps) simp
qed

lemma range_to_MaxInt64_hangs:
  "deviceTaskBalance rt cpus [running_ctn ''0-9223372036854775807''] = Inl NonTermination"
proof -
  have "range_loop cpus 0 0 MaxInt64 [] = None"
    by (rule range_loop_MaxInt64) (simp add: MaxInt64_def)
  then have "range_loop cpus 0 0 9223372036854775807 [] = None" by (simp add: MaxInt64_def)
  then show ?thesis
    by (simp add: deviceTaskBalance_def classify_one_def effective_limit_def running_ctn_def
        pin_chunk_def SplitN2_def Atoi_def ParseInt_def digit_of_def Let_def)
qed

subsection \<open>What the pinning parser keeps\<close>

lemma fixed_append_keys: "fst ` set (fixed_append fc i c) = insert i (fst ` set fc)"
  by (simp add: fixed_append_def dom_update split: option.splits)

lemma range_loop_keys:
  assumes "range_loop cpus c i high fc = Some fc'"
  shows "fst ` set fc' \<subseteq> fst ` set fc \<union> set cpus"
proof (rule range_loop.raw_induct
    [where P = "\<lambda>cpus c i high fc fc'. fst ` set fc' \<subseteq> fst ` set fc \<union> set cpus", OF _ assms])
  fix f :: "int list \<Rightarrow> nat \<Rightarrow> int \<Rightarrow> int \<Rightarrow> fixedContainers \<Rightarrow> fixedContainers option"
    and cpus c i high fc fc'
  assume IH: "\<And>cpus c i high fc fc'.
                f cpus c i high fc = Some fc' \<Longrightarrow> fst ` set fc' \<subseteq> fst ` set fc \<union> set cpus"
    and step: "(if i \<le> high
          then f cpus c (int64_inc i) high (if \<not> IntInSlice i cpus then fc else fixed_append fc i c)
          else Some fc) = Some fc'"
  show "fst ` set fc' \<subseteq> fst ` set fc \<union> set cpus"
  proof (cases "i \<le> high")
    case True
    let ?fc = "if \<not> IntInSlice i cpus then fc else fixed_append fc i c"
    from step True have "f cpus c (int64_inc i) high ?fc = Some fc'" by simp
    from IH [OF this] have "fst ` set fc' \<subseteq> fst ` set ?fc \<union> set cpus" .
    moreover have "fst ` set ?fc \<subseteq> fst ` set fc \<union> set cpus"
      by (auto simp: fixed_append_keys IntInSlice_def)
    ultimately show ?thesis by blast
  next
    case False
    with step show ?thesis by auto
  qed
qed

lemma pin_chunk_keys:
  assumes "pin_chunk cpus c fc chunk = Some fc'"
  shows "fst ` set fc' \<subseteq> fst ` set fc \<union> set cpus"
proof (cases "CHR ''-'' \<in> set chunk")
  case True
  show ?thesis
  proof (cases "Atoi (fst (SplitN2 chunk (CHR ''-'')))")
    case None
    with assms True show ?thesis by (auto simp: pin_chunk_def Let_def)
  next
    case low: (Some low)
    show ?thesis
    proof (cases "Atoi (snd (SplitN2 chunk (CHR ''-'')))")
      case None
      with assms True low show ?thesis by (auto simp: pin_chunk_def Let_def)
    next
      case (Some high)
      with assms True low have "range_loop cpus c low high fc = Some fc'"
        by (simp add: pin_chunk_def Let_def)
      then show ?thesis by (rule range_loop_keys)
    qed
  qed
next
  case False
  show ?thesis
  proof (cases "Atoi chunk")
    case None
    with assms False show ?thesis by (simp add: pin_chunk_def)
  next
    case (Some nr)
    show ?thesis
    proof (cases "IntInSlice nr cpus")
      case True
      with assms False Some have "fc' = fixed_append fc nr c" by (simp add: pin_chunk_def)
      then have "fst ` set fc' = insert nr (fst ` set fc)" by (simp only: fixed_append_keys)
      with True show ?thesis by (auto simp: IntInSlice_def)
    next
      case nin: False
      with assms False Some show ?thesis by (simp add: pin_chunk_def)
    qed
  qed
qed

lemma pin_chunks_keys:
  "pin_chunks cpus c fc chunks = Some fc' \<Longrightarrow> fst ` set fc' \<subseteq> fst ` set fc \<union> set cpus"
proof (induction chunks arbitrary: fc)
  case Nil
  then show ?case by auto
next
  case (Cons chunk chunks)
  from Cons.prems obtain fc1 where
    a: "pin_chunk cpus c fc chunk = Some fc1" and b: "pin_chunks cpus c fc1 chunks = Some fc'"
    by (auto split: option.splits)
  from pin_chunk_keys [OF a] Cons.IH [OF b] show ?case by blast
qed

lemma classify_one_keys:
  assumes "classify_one cpus (fc, bc) cc = Some (fc', bc')"
  shows "fst ` set fc' \<subseteq> fst ` set fc \<union> set cpus"
proof (cases "pinned cpus (snd cc)")
  case True
  with assms obtain chunks where "pin_chunks cpus (fst cc) fc chunks = Some fc'"
    by (auto simp: classify_one_def Let_def pinned_def split: option.splits)
  then show ?thesis by (rule pin_chunks_keys)
next
  case False
  from assms classify_one_balanced [OF False, of fc bc] show ?thesis by auto
qed

text \<open>
  Every CPU id with an entry in \<open>fixedContainers\<close> is online: ids that are offline or
  do not exist are left out by the parser.
\<close>

lemma classify_keys_online:
  assumes "classify cpus (fc, bc) ccs = Some (fc', bc')"
  shows "fst ` set fc' \<subseteq> fst ` set fc \<union> set cpus"
  using assms
proof (induction ccs arbitrary: fc bc)
  case Nil
  then show ?case by auto
next
  case (Cons cc ccs)
  from Cons.prems obtain fc1 bc1 where
    a: "classify_one cpus (fc, bc) cc = Some (fc1, bc1)" and
    b: "classify cpus (fc1, bc1) ccs = Some (fc', bc')"
    by (auto split: option.splits)
  from classify_one_keys [OF a] Cons.IH [OF b] show ?case by blast
qed

subsection \<open>When the parser returns\<close>

lemma digits_val_nonneg:
  "0 \<le> acc \<Longrightarrow> 0 \<le> b \<Longrightarrow> digits_val b s acc = Some n \<Longrightarrow> 0 \<le> n"
proof (induction s arbitrary: acc)
  case Nil
  then show ?case by simp
next
  case (Cons ch s)
  from Cons.prems(3) obtain d where d: "digit_of ch = Some d" "d < b"
    and r: "digits_val b s (acc * b + d) = Some n"
    by (auto split: option.splits if_splits)
  have "0 \<le> d" using d(1) by (auto simp: digit_of_def Let_def split: if_splits)
  then have "0 \<le> acc * b + d" using Cons.prems(1,2) by simp
  from Cons.IH [OF this Cons.prems(2) r] show ?case .
qed

lemma Atoi_le_MaxInt64: "Atoi s = Some n \<Longrightarrow> n \<le> MaxInt64"
proof -
  assume a: "Atoi s = Some n"
  then obtain ds m where m: "digits_val 10 ds 0 = Some m"
    and n: "n = - m \<or> (n = m \<and> m < 2 ^ 63)"
    by (auto simp: Atoi_def ParseInt_def Let_def simp del: digits_val.simps
        split: list.splits option.splits if_splits)
  from digits_val_nonneg [OF _ _ m] have "0 \<le> m" by simp
  with n show ?thesis by (auto simp: MaxInt64_def)
qed

text \<open>
  A chunk that is not a range with the largest integer as upper bound never stops the
  pass, whatever it contains: malformed chunks and unknown ids are skipped.
\<close>

lemma pin_chunk_returns:
  assumes "Atoi (snd (SplitN2 chunk (CHR ''-''))) \<noteq> Some MaxInt64"
  shows "\<exists>fc'. pin_chunk cpus c fc chunk = Some fc'"
proof (cases "CHR ''-'' \<in> set chunk")
  case True
  show ?thesis
  proof (cases "Atoi (fst (SplitN2 chunk (CHR ''-'')))")
    case None
    with True show ?thesis by (simp add: pin_chunk_def Let_def)
  next
    case low: (Some low)
    show ?thesis
    proof (cases "Atoi (snd (SplitN2 chunk (CHR ''-'')))")
      case None
      with True low show ?thesis by (simp add: pin_chunk_def Let_def)
    next
      case (Some high)
      with assms Atoi_le_MaxInt64 [OF Some] have "high < MaxInt64" by simp
      from range_loop_terminates [OF this] obtain fc' where
        "range_loop cpus c low high fc = Some fc'" by blast
      with True low Some show ?thesis by (simp add: pin_chunk_def Let_def)
    qed
  qed
next
  case False
  then show ?thesis by (simp add: pin_chunk_def split: option.splits)
qed

lemma pin_chunks_return:
  assumes "\<forall>chunk \<in> set chunks. Atoi (snd (SplitN2 chunk (CHR ''-''))) \<noteq> Some MaxInt64"
  shows "\<exists>fc'. pin_chunks cpus c fc chunks = Some fc'"
  using assms
proof (induction chunks arbitrary: fc)
  case Nil
  show ?case by simp
next
  case (Cons chunk chunks)
  from Cons.prems have "Atoi (snd (SplitN2 chunk (CHR ''-''))) \<noteq> Some MaxInt64" by simp
  from pin_chunk_returns [OF this] obtain fc1 where "pin_chunk cpus c fc chunk = Some fc1"
    by blast
  moreover from Cons.IH [of fc1] Cons.prems obtain fc' where
    "pin_chunks cpus c fc1 chunks = Some fc'" by auto
  ultimately show ?case by simp
qed

subsection \<open>Hosts whose online CPUs are 0, 1, ..., N - 1 in this order\<close>

text \<open>
  On such a host the position of a record in the initial usage slice is its CPU id, so
  \<open>usage[cpu]\<close> reads the record of CPU \<open>cpu\<close>, and every fixed assignment is honoured.
\<close>

lemma map_update_incr:
  assumes "k < length u" and "\<And>x. f (incr x) = f x"
  shows "map f (u[k := incr (u ! k)]) = map f u"
  using assms by (simp add: map_update list_update_same_conv)

lemma fixed_ctns_slice:
  assumes "k < length (fst st)"
  shows "map cpu_id (fst (fixed_ctns k sid st ctns)) = map cpu_id (fst st)
       \<and> map strId (fst (fixed_ctns k sid st ctns)) = map strId (fst st)"
  using assms
proof (induction ctns arbitrary: st)
  case Nil
  show ?case by simp
next
  case (Cons ctn ctns)
  let ?st = "((fst st)[k := incr (fst st ! k)], pin_add (snd st) ctn sid)"
  have "k < length (fst ?st)" using Cons.prems by simp
  from Cons.IH [OF this] show ?case
    using Cons.prems by (simp add: map_update_incr)
qed

lemma assigned_pin_add_mono: "set (assigned p c) \<subseteq> set (assigned (pin_add p ctn s) c)"
  by (auto simp: assigned_pin_add)

lemma fixed_ctns_mono:
  "set (assigned (snd st) c) \<subseteq> set (assigned (snd (fixed_ctns k sid st ctns)) c)"
proof (induction ctns arbitrary: st)
  case Nil
  show ?case by simp
next
  case (Cons ctn ctns)
  let ?st = "((fst st)[k := incr (fst st ! k)], pin_add (snd st) ctn sid)"
  from Cons.IH [of ?st] assigned_pin_add_mono [of "snd st" c ctn sid] show ?case by auto
qed

lemma fixed_ctns_member:
  "c \<in> set ctns \<Longrightarrow> sid \<in> set (assigned (snd (fixed_ctns k sid st ctns)) c)"
proof (induction ctns arbitrary: st)
  case Nil
  then show ?case by simp
next
  case (Cons ctn ctns)
  let ?st = "((fst st)[k := incr (fst st ! k)], pin_add (snd st) ctn sid)"
  show ?case
  proof (cases "c = ctn")
    case True
    have "sid \<in> set (assigned (snd ?st) c)" using True by (simp add: assigned_pin_add)
    with fixed_ctns_mono [of ?st c k sid ctns] show ?thesis by auto
  next
    case False
    with Cons.prems have "c \<in> set ctns" by simp
    from Cons.IH [OF this, of ?st] show ?thesis by simp
  qed
qed

lemma fixed_phase_mono:
  "fixed_phase st fl = Inr st' \<Longrightarrow> set (assigned (snd st) c) \<subseteq> set (assigned (snd st') c)"
proof (induction fl arbitrary: st)
  case Nil
  then show ?case by simp
next
  case (Cons kv fl)
  obtain cpu ctns where kv: "kv = (cpu, ctns)" by (cases kv)
  let ?st = "fixed_ctns (nat cpu) (strId (fst st ! nat cpu)) st ctns"
  from Cons.prems kv have "fixed_phase ?st fl = Inr st'" by (auto split: if_splits)
  from Cons.IH [OF this] fixed_ctns_mono [of st c "nat cpu" _ ctns] show ?case by blast
qed

lemma fixed_phase_honours:
  assumes "fixed_phase st fl = Inr st'"
      and "map cpu_id (fst st) = cpus" and "map strId (fst st) = map show_int cpus"
      and "cpus = map int [0..<length cpus]"
      and "(j, l) \<in> set fl" and "c \<in> set l"
  shows "show_int j \<in> set (assigned (snd st') c)"
  using assms(1,2,3,5)
proof (induction fl arbitrary: st)
  case Nil
  then show ?case by simp
next
  case (Cons kv fl)
  obtain cpu ctns where kv: "kv = (cpu, ctns)" by (cases kv)
  from Cons.prems(1) kv have rng: "0 \<le> cpu" "nat cpu < length (fst st)"
    by (auto split: if_splits)
  let ?sid = "strId (fst st ! nat cpu)"
  let ?st = "fixed_ctns (nat cpu) ?sid st ctns"
  from Cons.prems(1) kv rng have run: "fixed_phase ?st fl = Inr st'"
    by (auto split: if_splits)
  have len: "length (fst st) = length cpus" using Cons.prems(2) by (metis length_map)
  have "?sid = map strId (fst st) ! nat cpu" using rng(2) by simp
  also have "\<dots> = show_int (cpus ! nat cpu)" using Cons.prems(3) rng(2) len by simp
  also have "cpus ! nat cpu = int (nat cpu)"
    using assms(4) rng(2) len by (metis nth_map nth_upt add_0 length_upt diff_zero length_map)
  finally have sid: "?sid = show_int cpu" using rng(1) by simp
  from fixed_ctns_slice [OF rng(2), of ?sid ctns] Cons.prems(2,3) have
    1: "map cpu_id (fst ?st) = cpus" and 2: "map strId (fst ?st) = map show_int cpus"
    by simp_all
  show ?case
  proof (cases "(j, l) = kv")
    case True
    then have "cpu = j" "ctns = l" using kv by simp_all
    then have "show_int j \<in> set (assigned (snd ?st) c)"
      using fixed_ctns_member [OF assms(6), of ?sid "nat cpu" st] sid by simp
    with fixed_phase_mono [OF run, of c] show ?thesis by blast
  next
    case False
    with Cons.prems(4) have "(j, l) \<in> set fl" by simp
    from Cons.IH [OF run 1 2 this] show ?thesis .
  qed
qed

lemma fixed_ctns_length: "length (fst (fixed_ctns k sid st ctns)) = length (fst st)"
proof (induction ctns arbitrary: st)
  case Nil
  show ?case by simp
next
  case (Cons ctn ctns)
  from Cons.IH [of "((fst st)[k := incr (fst st ! k)], pin_add (snd st) ctn sid)"]
  show ?case by simp
qed

lemma fixed_phase_returns:
  assumes "\<forall>kv \<in> set fl. 0 \<le> fst kv \<and> fst kv < int (length (fst st))"
  shows "\<exists>st'. fixed_phase st fl = Inr st'"
  using assms
proof (induction fl arbitrary: st)
  case Nil
  show ?case by simp
next
  case (Cons kv fl)
  obtain cpu ctns where kv: "kv = (cpu, ctns)" by (cases kv)
  from Cons.prems kv have rng: "0 \<le> cpu" "cpu < int (length (fst st))" by simp_all
  let ?st = "fixed_ctns (nat cpu) (strId (fst st ! nat cpu)) st ctns"
  have "\<forall>kv \<in> set fl. 0 \<le> fst kv \<and> fst kv < int (length (fst ?st))"
    using Cons.prems by (simp add: fixed_ctns_length)
  from Cons.IH [OF this] obtain st' where "fixed_phase ?st fl = Inr st'" by blast
  with rng show ?case by (simp add: kv)
qed

lemma balance_one_mono:
  "set (assigned (snd st) c) \<subseteq> set (assigned (snd (balance_one srt st b)) c)"
proof -
  obtain u p where st: "st = (u, p)" by (cases st)
  obtain ctn cnt where b: "b = (ctn, cnt)" by (cases b)
  show ?thesis
  proof (cases "c = ctn")
    case True
    then show ?thesis by (simp add: st b balance_one_eq assigned_pin_adds)
  next
    case False
    then show ?thesis by (simp add: st b balance_one_eq assigned_def pin_adds_other)
  qed
qed

lemma balanced_phase_mono:
  "set (assigned (snd st) c) \<subseteq> set (assigned (snd (balanced_phase srt st bs)) c)"
proof (induction bs arbitrary: st)
  case Nil
  show ?case by simp
next
  case (Cons b bs)
  from Cons.IH [of "balance_one srt st b"] balance_one_mono [of st c srt b]
  show ?case by auto
qed

text \<open>
  On an aligned host a pass whose classification returns does return, and every
  instance holds every CPU it has a fixed assignment for, however many instances are
  fixed to the same CPU.
\<close>

lemma fixed_pins_honoured_on_aligned_host:
  assumes ok: "runtime_ok rt" and al: "cpus = map int [0..<length cpus]"
      and cl: "classify cpus ([], []) (zip [0..<length ctns] ctns) = Some (fc, bc)"
      and m: "(j, l) \<in> set fc" and c: "c \<in> set l"
  shows "\<exists>r. deviceTaskBalance rt cpus ctns = Inr r
           \<and> show_int j \<in> set (assigned (final_pinning r) c)"
proof -
  have pf: "mset (rangeFixed rt fc) = mset fc" using ok by (simp add: runtime_ok_def)
  then have sf: "set (rangeFixed rt fc) = set fc" by (metis set_mset_mset)
  have keys: "fst ` set fc \<subseteq> set cpus" using classify_keys_online [OF cl] by simp
  have "set cpus = int ` {0..<length cpus}" by (subst al) simp
  then have rng: "\<forall>kv \<in> set (rangeFixed rt fc). 0 \<le> fst kv \<and> fst kv < int (length cpus)"
    using keys sf by auto
  let ?st0 = "(new_usage cpus, Map.empty :: pinning)"
  have "\<forall>kv \<in> set (rangeFixed rt fc). 0 \<le> fst kv \<and> fst kv < int (length (fst ?st0))"
    using rng by (simp add: new_usage_def)
  from fixed_phase_returns [OF this] obtain st where
    f: "fixed_phase ?st0 (rangeFixed rt fc) = Inr st" by blast
  have 1: "map cpu_id (fst ?st0) = cpus" by (simp add: new_usage_def comp_def)
  have 2: "map strId (fst ?st0) = map show_int cpus" by (simp add: new_usage_def comp_def)
  have m': "(j, l) \<in> set (rangeFixed rt fc)" using m sf by simp
  from fixed_phase_honours [OF f 1 2 al m' c] have
    "show_int j \<in> set (assigned (snd st) c)" .
  with balanced_phase_mono [of st c "sortUsage rt" "rangeBalanced rt bc"] have
    "show_int j \<in> set (assigned (snd (balanced_phase (sortUsage rt) st (rangeBalanced rt bc))) c)"
    by blast
  then show ?thesis by (simp add: deviceTaskBalance_def cl f Let_def)
qed

section \<open>The CPU balancer: properties of a pass\<close>

subsection \<open>Load-balanced instances\<close>

text \<open>
  In a pass over distinct online CPUs that returns, a running instance whose limit
  parses as an integer \<open>n \<ge> 0\<close> holds the ids of exactly \<open>min n N\<close> distinct online CPUs,
  where \<open>N\<close> is the number of online CPUs.  This holds for every sort that meets the
  contract of \<open>sort.Sort\<close> and every order of map iteration.  A pass in which no instance
  is pinned always returns.
\<close>

lemma balanced_instance_when_pass_returns:
  assumes ok: "runtime_ok rt" and dist: "distinct cpus"
      and i: "i < length ctns" and lb: "load_balanced cpus (ctns ! i) n" and n: "0 \<le> n"
  shows "((\<forall>c \<in> set ctns. \<not> pinned cpus c) \<longrightarrow> (\<exists>r. deviceTaskBalance rt cpus ctns = Inr r))
       \<and> (\<forall>r. deviceTaskBalance rt cpus ctns = Inr r \<longrightarrow>
             (\<exists>ids. assigned (final_pinning r) i = map show_int ids \<and> distinct ids
                  \<and> set ids \<subseteq> set cpus \<and> int (length ids) = min n (int (length cpus))))"
proof (intro conjI impI allI)
  assume "\<forall>c \<in> set ctns. \<not> pinned cpus c"
  from balanced_only_pass [OF ok this] show "\<exists>r. deviceTaskBalance rt cpus ctns = Inr r" by blast
next
  fix r assume run: "deviceTaskBalance rt cpus ctns = Inr r"
  let ?k = "min n (int (length cpus))"
  from balanced_instance_assigned [OF ok run i lb] obtain us where
    us: "usage_of cpus us" and
    a: "assigned (final_pinning r) i = map strId (take (takes ?k (length us)) us)"
    by blast
  have len: "length us = length cpus" using us by (rule usage_of_length)
  let ?ids = "map cpu_id (take (takes ?k (length us)) us)"
  have ms: "mset (map cpu_id us) = mset cpus" using us by (simp add: usage_of_def)
  have 1: "assigned (final_pinning r) i = map show_int ?ids"
    using a usage_ids [OF us] by simp
  have "distinct (map cpu_id us)" using ms dist by (metis mset_eq_imp_distinct_iff)
  then have 2: "distinct ?ids" by (simp add: take_map [symmetric])
  have "set ?ids \<subseteq> set (map cpu_id us)" by (auto dest: in_set_takeD)
  also have "\<dots> = set cpus" using ms by (metis set_mset_mset)
  finally have 3: "set ?ids \<subseteq> set cpus" .
  have "length ?ids = takes ?k (length cpus)" using takes_le [of ?k "length cpus"] by (simp add: len)
  then have 4: "int (length ?ids) = min n (int (length cpus))"
    using takes_nonneg [OF n] by simp
  from 1 2 3 4 show "\<exists>ids. assigned (final_pinning r) i = map show_int ids \<and> distinct ids
                  \<and> set ids \<subseteq> set cpus \<and> int (length ids) = min n (int (length cpus))"
    by blast
qed

text \<open>
  The same on the host of the specification's scenario: four CPUs, one instance with
  limit 2 and one pinned to 0-1.
\<close>

lemma balanced_instance_when_pass_returns_example:
  "runtime_ok insertion_runtime \<and> distinct [0, 1, 2, 3 :: int]
   \<and> load_balanced [0, 1, 2, 3] ([running_ctn ''2'', running_ctn ''0-1''] ! 0) 2
   \<and> pass_pinning insertion_runtime [0, 1, 2, 3] [running_ctn ''2'', running_ctn ''0-1''] 0
        = [''2'', ''3'']
   \<and> (\<exists>ids. [''2'', ''3''] = map show_int ids \<and> distinct ids \<and> set ids \<subseteq> set [0, 1, 2, 3]
          \<and> int (length ids) = min 2 (int (length [0, 1, 2, 3 :: int])))"
proof -
  let ?cpus = "[0, 1, 2, 3] :: int list"
  let ?ctns = "[running_ctn ''2'', running_ctn ''0-1'']"
  have d: "distinct ?cpus" by simp
  have i: "0 < length ?ctns" by simp
  have lb: "load_balanced ?cpus (?ctns ! 0) 2"
    by (simp add: load_balanced_def pass_eval)
  have e: "pass_pinning insertion_runtime ?cpus ?ctns 0 = [''2'', ''3'']"
    by (simp add: pass_eval)
  then obtain r where run: "deviceTaskBalance insertion_runtime ?cpus ?ctns = Inr r"
    by (cases "deviceTaskBalance insertion_runtime ?cpus ?ctns") (simp_all add: pass_pinning_def)
  from e run have a: "assigned (final_pinning r) 0 = [''2'', ''3'']"
    by (simp add: pass_pinning_def)
  from balanced_instance_when_pass_returns [OF insertion_runtime_ok d i lb] run have
    "\<exists>ids. assigned (final_pinning r) 0 = map show_int ids \<and> distinct ids
          \<and> set ids \<subseteq> set ?cpus \<and> int (length ids) = min 2 (int (length ?cpus))"
    by simp
  then have "\<exists>ids. [''2'', ''3''] = map show_int ids \<and> distinct ids
          \<and> set ids \<subseteq> set ?cpus \<and> int (length ids) = min 2 (int (length ?cpus))"
    by (simp only: a)
  with insertion_runtime_ok d lb e show ?thesis by (intro conjI)
qed

text \<open>
  In a pass that returns, a running instance whose limit parses as a negative integer
  holds every online CPU: its ids are a rearrangement of the online CPU list, and the
  value written to its control file joins all of them.
\<close>

lemma negative_limit_when_pass_returns:
  assumes ok: "runtime_ok rt" and run: "deviceTaskBalance rt cpus ctns = Inr r"
      and i: "i < length ctns" and lb: "load_balanced cpus (ctns ! i) n" and n: "n < 0"
  shows "(\<exists>ids. mset ids = mset cpus \<and> assigned (final_pinning r) i = map show_int ids)
       \<and> (cpus \<noteq> [] \<longrightarrow> cpuset_cpus r i = Some (Join (sort (map show_int cpus)) '',''))"
proof -
  let ?k = "min n (int (length cpus))"
  from balanced_instance_assigned [OF ok run i lb] obtain us where
    us: "usage_of cpus us" and
    a: "assigned (final_pinning r) i = map strId (take (takes ?k (length us)) us)"
    by blast
  have len: "length us = length cpus" using us by (rule usage_of_length)
  have ms: "mset (map cpu_id us) = mset cpus" using us by (simp add: usage_of_def)
  have "takes ?k (length us) = length us" using takes_neg [OF n] by (simp add: len)
  then have a': "assigned (final_pinning r) i = map show_int (map cpu_id us)"
    using a usage_ids [OF us, of "length us"] by simp
  have 1: "\<exists>ids. mset ids = mset cpus \<and> assigned (final_pinning r) i = map show_int ids"
    using ms a' by blast
  have 2: "cpuset_cpus r i = Some (Join (sort (map show_int cpus)) '','')" if ne: "cpus \<noteq> []"
  proof -
    have "us \<noteq> []" using len ne by auto
    then have "assigned (final_pinning r) i \<noteq> []" using a' by simp
    from assigned_Some [OF this] have p: "final_pinning r i = Some (map show_int (map cpu_id us))"
      using a' by simp
    have "mset (map show_int (map cpu_id us)) = mset (map show_int cpus)"
      using ms by (metis mset_map)
    then have s: "sort (map show_int (map cpu_id us)) = sort (map show_int cpus)"
      by (rule sort_mset_eq)
    from run obtain fc bc st where
      "cpuset_cpus r = (\<lambda>ctn. map_option cpuset_value (final_pinning r ctn))"
      by (rule pass_Inr)
    then show ?thesis using p s by (simp add: cpuset_value_def)
  qed
  from 1 2 show ?thesis by blast
qed

text \<open>
  The same for the limit \<open>-1\<close> on four CPUs.
\<close>

lemma negative_limit_when_pass_returns_example:
  "runtime_ok insertion_runtime
   \<and> load_balanced [0, 1, 2, 3] ([running_ctn ''-1''] ! 0) (- 1)
   \<and> pass_write insertion_runtime [0, 1, 2, 3] [running_ctn ''-1''] 0 = Some ''0,1,2,3''
   \<and> Some ''0,1,2,3'' = Some (Join (sort (map show_int [0, 1, 2, 3])) '','')"
proof -
  let ?cpus = "[0, 1, 2, 3] :: int list"
  let ?ctns = "[running_ctn ''-1'']"
  have i: "0 < length ?ctns" by simp
  have lb: "load_balanced ?cpus (?ctns ! 0) (- 1)"
    by (simp add: load_balanced_def pass_eval)
  have e: "pass_write insertion_runtime ?cpus ?ctns 0 = Some ''0,1,2,3''"
    by (simp add: pass_eval)
  then obtain r where run: "deviceTaskBalance insertion_runtime ?cpus ?ctns = Inr r"
    by (cases "deviceTaskBalance insertion_runtime ?cpus ?ctns") (simp_all add: pass_write_def)
  from e run have w: "cpuset_cpus r 0 = Some ''0,1,2,3''" by (simp add: pass_write_def)
  from negative_limit_when_pass_returns [OF insertion_runtime_ok run i lb] have
    "cpuset_cpus r 0 = Some (Join (sort (map show_int ?cpus)) '','')" by simp
  then have "Some ''0,1,2,3'' = Some (Join (sort (map show_int ?cpus)) '','')"
    by (simp only: w)
  with insertion_runtime_ok lb e show ?thesis by (intro conjI)
qed

text \<open>
  Claim C5.  A pass in which no instance is pinned returns, has one counter for every
  online CPU, and leaves the counters of any two CPUs at most one apart.
\<close>

theorem balanced_pass_even_usage:
  assumes ok: "runtime_ok rt" and np: "\<forall>c \<in> set ctns. \<not> pinned cpus c"
  shows "\<exists>r. deviceTaskBalance rt cpus ctns = Inr r
           \<and> mset (map cpu_id (final_usage r)) = mset cpus
           \<and> (\<forall>a \<in> set (final_usage r). \<forall>b \<in> set (final_usage r).
                 \<bar>cpu_count a - cpu_count b\<bar> \<le> 1)"
proof -
  from balanced_only_pass [OF ok np] obtain r where
    run: "deviceTaskBalance rt cpus ctns = Inr r" and
    u: "final_usage r = fst (balanced_phase (sortUsage rt) (new_usage cpus, Map.empty)
                 (rangeBalanced rt (concat (map (bal_entry cpus) (zip [0..<length ctns] ctns)))))"
    by blast
  have srt: "sort_ok (sortUsage rt)" using ok by (simp add: runtime_ok_def)
  have "even_usage (fst (new_usage cpus, Map.empty :: pinning))" by (simp add: even_usage_new)
  from balanced_phase_even [OF srt this] have e: "even_usage (final_usage r)" by (simp add: u)
  have "usage_of cpus (final_usage r)" using pass_invariants(1) [OF ok run] .
  then have m: "mset (map cpu_id (final_usage r)) = mset cpus" by (simp add: usage_of_def)
  have "\<forall>a \<in> set (final_usage r). \<forall>b \<in> set (final_usage r). \<bar>cpu_count a - cpu_count b\<bar> \<le> 1"
  proof (intro ballI)
    fix a b assume "a \<in> set (final_usage r)" "b \<in> set (final_usage r)"
    with e have "cpu_count a \<le> cpu_count b + 1" "cpu_count b \<le> cpu_count a + 1"
      by (simp_all add: even_usage_def)
    then show "\<bar>cpu_count a - cpu_count b\<bar> \<le> 1" by linarith
  qed
  with run m show ?thesis by blast
qed

text \<open>
  Claim C5 for three instances with limits 1, 1 and 2 on three CPUs.
\<close>

theorem balanced_pass_even_usage_witness:
  "runtime_ok insertion_runtime
   \<and> \<not> pinned [0, 1, 2] (running_ctn ''1'') \<and> \<not> pinned [0, 1, 2] (running_ctn ''2'')
   \<and> pass_usage insertion_runtime [0, 1, 2] [running_ctn ''1'', running_ctn ''1'', running_ctn ''2'']
        = [(2, 1), (1, 2), (0, 1)]
   \<and> (\<exists>r. deviceTaskBalance insertion_runtime [0, 1, 2]
              [running_ctn ''1'', running_ctn ''1'', running_ctn ''2''] = Inr r
         \<and> (\<forall>a \<in> set (final_usage r). \<forall>b \<in> set (final_usage r).
               \<bar>cpu_count a - cpu_count b\<bar> \<le> 1))"
proof -
  let ?cpus = "[0, 1, 2] :: int list"
  let ?ctns = "[running_ctn ''1'', running_ctn ''1'', running_ctn ''2'']"
  have np: "\<forall>c \<in> set ?ctns. \<not> pinned ?cpus c"
    by (simp add: pinned_def pass_eval)
  have e: "pass_usage insertion_runtime ?cpus ?ctns = [(2, 1), (1, 2), (0, 1)]"
    by (simp add: pass_eval)
  from balanced_pass_even_usage [OF insertion_runtime_ok np] have
    "\<exists>r. deviceTaskBalance insertion_runtime ?cpus ?ctns = Inr r
         \<and> (\<forall>a \<in> set (final_usage r). \<forall>b \<in> set (final_usage r).
               \<bar>cpu_count a - cpu_count b\<bar> \<le> 1)"
    by blast
  moreover have "\<not> pinned ?cpus (running_ctn ''1'')" "\<not> pinned ?cpus (running_ctn ''2'')"
    using np by simp_all
  ultimately show ?thesis using insertion_runtime_ok e by (intro conjI)
qed

subsection \<open>Order of allocation\<close>

text \<open>
  Claim C4 fails as stated.  Three CPUs, three load-balanced instances with limits 1, 1
  and 2, visited in this order, usage sorted by insertion sort (what \<open>sort.Sort\<close> does on
  three elements).  After the first two instances CPU 0 and CPU 1 both have count 1 and
  CPU 2 has count 0, and the usage slice is in the order 1, 2, 0.  The third instance
  takes CPU 2 and then CPU 1, not CPU 0: the tie is broken by the position the earlier
  sorts left, not by the CPU id.  With ties broken by ascending id it would take 2 and 0.
\<close>

theorem tie_not_broken_by_id:
  "pass_usage insertion_runtime [0, 1, 2] [running_ctn ''1'', running_ctn ''1'']
       = [(1, 1), (2, 0), (0, 1)]
   \<and> pass_pinning insertion_runtime [0, 1, 2]
       [running_ctn ''1'', running_ctn ''1'', running_ctn ''2''] 2 = [''2'', ''1'']
   \<and> pass_pinning spec_runtime [0, 1, 2]
       [running_ctn ''1'', running_ctn ''1'', running_ctn ''2''] 2 = [''2'', ''0'']"
  by (simp add: pass_eval)

text \<open>
  Claim C4, amended.  For one load-balanced instance the usage slice is sorted by
  counter and the instance takes a prefix of the sorted slice: no CPU it leaves is less
  loaded than a CPU it takes, the counters of the taken CPUs go up by one, and their ids
  are appended to the instance's entry in the order of the sorted slice.  The order
  among equally loaded CPUs is whatever the sort leaves.  The slice is sorted again
  before every instance, on the counters the earlier instances left.
\<close>

theorem allocation_least_loaded_first:
  assumes srt: "sort_ok srt"
  shows "(\<exists>taken rest.
            srt u = taken @ rest \<and> mset (taken @ rest) = mset u
          \<and> length taken = takes cnt (length u)
          \<and> sorted (map cpu_count (taken @ rest))
          \<and> (\<forall>a \<in> set taken. \<forall>b \<in> set rest. cpu_count a \<le> cpu_count b)
          \<and> fst (balance_one srt (u, p) (ctn, cnt)) = map incr taken @ rest
          \<and> assigned (snd (balance_one srt (u, p) (ctn, cnt))) ctn
               = assigned p ctn @ map strId taken)
       \<and> balanced_phase srt st (b # bs) = balanced_phase srt (balance_one srt st b) bs"
proof
  let ?k = "takes cnt (length (srt u))"
  let ?taken = "take ?k (srt u)" and ?rest = "drop ?k (srt u)"
  have len: "length (srt u) = length u"
    using sort_ok_mset [OF srt, of u] by (metis size_mset)
  have 1: "srt u = ?taken @ ?rest" by simp
  have 2: "mset (?taken @ ?rest) = mset u" using sort_ok_mset [OF srt, of u] by simp
  have 3: "length ?taken = takes cnt (length u)"
    using takes_le [of cnt "length u"] by (simp add: len)
  have 4: "sorted (map cpu_count (?taken @ ?rest))" using sort_ok_sorted [OF srt, of u] by simp
  have 5: "\<forall>a \<in> set ?taken. \<forall>b \<in> set ?rest. cpu_count a \<le> cpu_count b"
    using sorted_take_drop [OF sort_ok_sorted [OF srt, of u]] by blast
  have 6: "fst (balance_one srt (u, p) (ctn, cnt)) = map incr ?taken @ ?rest"
    by (simp add: balance_one_eq)
  have 7: "assigned (snd (balance_one srt (u, p) (ctn, cnt))) ctn = assigned p ctn @ map strId ?taken"
    by (simp add: balance_one_eq assigned_pin_adds)
  from 1 2 3 4 5 6 7 show "\<exists>taken rest.
            srt u = taken @ rest \<and> mset (taken @ rest) = mset u
          \<and> length taken = takes cnt (length u)
          \<and> sorted (map cpu_count (taken @ rest))
          \<and> (\<forall>a \<in> set taken. \<forall>b \<in> set rest. cpu_count a \<le> cpu_count b)
          \<and> fst (balance_one srt (u, p) (ctn, cnt)) = map incr taken @ rest
          \<and> assigned (snd (balance_one srt (u, p) (ctn, cnt))) ctn
               = assigned p ctn @ map strId taken"
    by blast
next
  show "balanced_phase srt st (b # bs) = balanced_phase srt (balance_one srt st b) bs" by simp
qed

text \<open>
  Claim C4, amended, at the state of the example above.
\<close>

theorem allocation_least_loaded_first_witness:
  "sort_ok (sort_key cpu_count)
   \<and> (\<exists>taken rest.
          sort_key cpu_count usage3 = taken @ rest
        \<and> length taken = takes 2 (length usage3)
        \<and> (\<forall>a \<in> set taken. \<forall>b \<in> set rest. cpu_count a \<le> cpu_count b)
        \<and> assigned (snd (balance_one (sort_key cpu_count) (usage3, Map.empty) (2, 2))) 2
             = assigned Map.empty 2 @ map strId taken)
   \<and> assigned (snd (balance_one (sort_key cpu_count) (usage3, Map.empty) (2, 2))) 2 = [''2'', ''1'']"
proof -
  have s: "sort_ok (sort_key cpu_count)" by (simp add: sort_ok_def)
  have e: "assigned (snd (balance_one (sort_key cpu_count) (usage3, Map.empty) (2, 2))) 2 = [''2'', ''1'']"
    by (simp add: usage3_def balance_one_def pin_add_def assigned_def incr_def Let_def)
  from allocation_least_loaded_first [OF s, of usage3 2 Map.empty 2] s e show ?thesis by blast
qed

subsection \<open>The value written to cpuset.cpus\<close>

text \<open>
  Claim C3 fails as stated.  On a host with eleven CPUs (listed in the order of their
  directory names, \<open>cpu10\<close> before \<open>cpu2\<close>) one running instance without a limit holds
  all CPUs, whatever the sort does, and its control file receives
  \<open>0,1,10,2,3,4,5,6,7,8,9\<close>; in ascending numeric order the value would end in
  \<open>8,9,10\<close>.  In the same way CPUs 2 and 10 alone give \<open>10,2\<close> and not \<open>2,10\<close>.
\<close>

theorem cpuset_value_not_numeric:
  "pass_write insertion_runtime [0, 1, 10, 2, 3, 4, 5, 6, 7, 8, 9] [running_ctn []] 0
       = Some ''0,1,10,2,3,4,5,6,7,8,9''
   \<and> spec_cpuset_value [0, 1, 10, 2, 3, 4, 5, 6, 7, 8, 9] = ''0,1,2,3,4,5,6,7,8,9,10''
   \<and> cpuset_value [''2'', ''10''] = ''10,2''
   \<and> spec_cpuset_value [2, 10] = ''2,10''"
  by (simp add: pass_eval spec_cpuset_value_def)

text \<open>
  Claim C3, amended.  When a pass returns, an instance without an entry in \<open>pinning\<close>
  is not written; an instance with an entry holds at least one id, every id is the
  decimal name of an online CPU, and the value written is the ids in ascending
  lexicographic (byte-wise) order of the strings, joined by commas.  An instance that
  holds CPUs 2 and 10 is written \<open>10,2\<close>.
\<close>

theorem cpuset_value_lexicographic:
  assumes ok: "runtime_ok rt" and run: "deviceTaskBalance rt cpus ctns = Inr r"
  shows "case final_pinning r i of
           None \<Rightarrow> cpuset_cpus r i = None
         | Some strs \<Rightarrow>
             strs \<noteq> [] \<and> set strs \<subseteq> show_int ` set cpus
             \<and> (\<exists>ys. sorted ys \<and> mset ys = mset strs \<and> cpuset_cpus r i = Some (Join ys '',''))
             \<and> (mset strs = mset [''2'', ''10''] \<longrightarrow> cpuset_cpus r i = Some ''10,2'')"
proof -
  from run obtain fc bc st where
    w: "cpuset_cpus r = (\<lambda>ctn. map_option cpuset_value (final_pinning r ctn))"
    by (rule pass_Inr)
  have p: "pins_ok cpus (final_pinning r)" using pass_invariants(2) [OF ok run] .
  show ?thesis
  proof (cases "final_pinning r i")
    case None
    then show ?thesis by (simp add: w)
  next
    case (Some strs)
    then have 1: "strs \<noteq> []" and 2: "set strs \<subseteq> show_int ` set cpus"
      using p by (simp_all add: pins_ok_def)
    have "sorted (sort strs) \<and> mset (sort strs) = mset strs
            \<and> cpuset_cpus r i = Some (Join (sort strs) '','')"
      using Some by (simp add: w cpuset_value_def)
    then have 3: "\<exists>ys. sorted ys \<and> mset ys = mset strs \<and> cpuset_cpus r i = Some (Join ys '','')"
      by blast
    have 4: "cpuset_cpus r i = Some ''10,2''" if m: "mset strs = mset [''2'', ''10'']"
    proof -
      from sort_mset_eq [OF m] have "sort strs = [''10'', ''2'']" by simp
      then show ?thesis using Some by (simp add: w cpuset_value_def)
    qed
    from 1 2 3 4 Some show ?thesis by simp
  qed
qed

text \<open>
  Claim C3, amended, on a host where CPUs 10 and 2 are online (in the order of their
  directory names) and one instance has no limit: it holds both and is written \<open>10,2\<close>.
\<close>

theorem cpuset_value_lexicographic_witness:
  "runtime_ok insertion_runtime
   \<and> pass_pinning insertion_runtime [10, 2] [running_ctn []] 0 = [''10'', ''2'']
   \<and> mset [''10'', ''2''] = mset [''2'', ''10'']
   \<and> pass_write insertion_runtime [10, 2] [running_ctn []] 0 = Some ''10,2''
   \<and> (\<exists>ys. sorted ys \<and> mset ys = mset [''10'', ''2''] \<and> Some ''10,2'' = Some (Join ys '',''))"
proof -
  let ?cpus = "[10, 2] :: int list"
  let ?ctns = "[running_ctn []]"
  have e: "pass_pinning insertion_runtime ?cpus ?ctns 0 = [''10'', ''2'']"
    by (simp add: pass_eval)
  from e obtain r where run: "deviceTaskBalance insertion_runtime ?cpus ?ctns = Inr r"
    by (cases "deviceTaskBalance insertion_runtime ?cpus ?ctns") (simp_all add: pass_pinning_def)
  from e run have "assigned (final_pinning r) 0 = [''10'', ''2'']"
    by (simp add: pass_pinning_def)
  then have p: "final_pinning r 0 = Some [''10'', ''2'']"
    using assigned_Some [of "final_pinning r" 0] by simp
  have m: "mset [''10'', ''2''] = mset [''2'', ''10'']" by simp
  have "case final_pinning r 0 of
           None \<Rightarrow> cpuset_cpus r 0 = None
         | Some strs \<Rightarrow>
             strs \<noteq> [] \<and> set strs \<subseteq> show_int ` set ?cpus
             \<and> (\<exists>ys. sorted ys \<and> mset ys = mset strs \<and> cpuset_cpus r 0 = Some (Join ys '',''))
             \<and> (mset strs = mset [''2'', ''10''] \<longrightarrow> cpuset_cpus r 0 = Some ''10,2'')"
    by (rule cpuset_value_lexicographic [OF insertion_runtime_ok run])
  then have c: "[''10'', ''2''] \<noteq> [] \<and> set [''10'', ''2''] \<subseteq> show_int ` set ?cpus
      \<and> (\<exists>ys. sorted ys \<and> mset ys = mset [''10'', ''2'']
             \<and> cpuset_cpus r 0 = Some (Join ys '',''))
      \<and> (mset [''10'', ''2''] = mset [''2'', ''10''] \<longrightarrow> cpuset_cpus r 0 = Some ''10,2'')"
    unfolding p option.case .
  from c have
    a: "\<exists>ys. sorted ys \<and> mset ys = mset [''10'', ''2'']
           \<and> cpuset_cpus r 0 = Some (Join ys '','')"
    by (elim conjE)
  from c have
    b: "mset [''10'', ''2''] = mset [''2'', ''10''] \<longrightarrow> cpuset_cpus r 0 = Some ''10,2''"
    by (elim conjE)
  from b m have w: "cpuset_cpus r 0 = Some ''10,2''" by (rule mp)
  then have e': "pass_write insertion_runtime ?cpus ?ctns 0 = Some ''10,2''"
    using run by (simp add: pass_write_def)
  from a obtain ys where ys: "sorted ys" "mset ys = mset [''10'', ''2'']"
    "cpuset_cpus r 0 = Some (Join ys '','')" by blast
  from ys(3) have "Some ''10,2'' = Some (Join ys '','')" by (simp only: w)
  with ys(1,2) have "\<exists>ys. sorted ys \<and> mset ys = mset [''10'', ''2'']
         \<and> Some ''10,2'' = Some (Join ys '','')"
    by blast
  with insertion_runtime_ok e m e' show ?thesis by (intro conjI)
qed

subsection \<open>Pinned instances\<close>

text \<open>
  Claim C2 fails on the code.  CPUs 0, 2 and 3 are online (CPU 1 is offline) and one
  running instance is pinned to \<open>0,2\<close>.  The loop over \<open>fixedContainers\<close> reads
  \<open>usage[2]\<close>, which is the record of CPU 3: the instance is given CPUs 0 and 3, and
  CPU 2 is not in its set.
\<close>

theorem fixed_pin_indexes_usage_by_id:
  "pass_pinning insertion_runtime [0, 2, 3] [running_ctn ''0,2''] 0 = [''0'', ''3'']
   \<and> pass_write insertion_runtime [0, 2, 3] [running_ctn ''0,2''] 0 = Some ''0,3''"
  by (simp add: pass_eval)

text \<open>
  Claim C6 fails on the code.  CPUs 0, 2 and 3 are online and one running instance is
  pinned to \<open>1,3\<close>.  The offline CPU 1 is skipped, CPU 3 is kept, and the loop over
  \<open>fixedContainers\<close> reads \<open>usage[3]\<close> in a slice of three records: the pass stops with
  an index out of range and nothing is written.
\<close>

theorem offline_pin_aborts_pass:
  "deviceTaskBalance insertion_runtime [0, 2, 3] [running_ctn ''1,3''] = Inl IndexOutOfRange
   \<and> pass_write insertion_runtime [0, 2, 3] [running_ctn ''1,3''] 0 = None"
  by (simp add: pass_eval)

subsection \<open>Load-balanced instances in a pass that panics\<close>

text \<open>
  Claim C1 fails on the code.  CPUs 0, 2 and 3 are online, one running instance has the
  limit \<open>2\<close> and another is pinned to \<open>1,3\<close>.  The first instance is load-balanced with
  request 2 and should hold two CPUs, but the loop over \<open>fixedContainers\<close> runs first and
  reads \<open>usage[3]\<close> in a slice of three records: the pass stops with an index out of
  range before the load-balanced loop, and the instance holds nothing and is not
  written.  The sort and the order of map iteration play no part.
\<close>

theorem balanced_instance_lost_when_pin_panics:
  "load_balanced [0, 2, 3] ([running_ctn ''2'', running_ctn ''1,3''] ! 0) 2
   \<and> deviceTaskBalance insertion_runtime [0, 2, 3] [running_ctn ''2'', running_ctn ''1,3'']
        = Inl IndexOutOfRange
   \<and> pass_pinning insertion_runtime [0, 2, 3] [running_ctn ''2'', running_ctn ''1,3''] 0 = []
   \<and> pass_write insertion_runtime [0, 2, 3] [running_ctn ''2'', running_ctn ''1,3''] 0 = None"
  by (simp add: load_balanced_def pass_eval)

text \<open>
  Claim C10 fails on the code.  CPUs 0, 2 and 3 are online, one running instance has the
  limit \<open>-1\<close> and another is pinned to \<open>1,3\<close>.  The first instance is load-balanced with
  a negative request and should hold every online CPU, but the loop over
  \<open>fixedContainers\<close> stops the pass at \<open>usage[3]\<close> as above: the instance holds nothing
  and is not written.
\<close>

theorem negative_limit_lost_when_pin_panics:
  "load_balanced [0, 2, 3] ([running_ctn ''-1'', running_ctn ''1,3''] ! 0) (- 1)
   \<and> deviceTaskBalance insertion_runtime [0, 2, 3] [running_ctn ''-1'', running_ctn ''1,3'']
        = Inl IndexOutOfRange
   \<and> pass_pinning insertion_runtime [0, 2, 3] [running_ctn ''-1'', running_ctn ''1,3''] 0 = []
   \<and> pass_write insertion_runtime [0, 2, 3] [running_ctn ''-1'', running_ctn ''1,3''] 0 = None"
  by (simp add: load_balanced_def pass_eval)

section \<open>Properties of the nic hot-add\<close>








lemma link_names_upd [simp]:
  "link_add_cmd w (d(''name'' := n)) = link_add_cmd w d"
  "created_link w (d(''name'' := n)) = created_link w d"
  by (simp_all add: link_add_cmd_def created_link_def)






end
